theory Spec2Isabelle
  imports Main "HOL-Library.AList" "HOL-Library.Multiset"
begin

section \<open>Data model of \<^verbatim>\<open>multiple_coverage_analysis.py\<close>\<close>

text \<open>
  The engine works on three Python values.
  \<^item> \<^verbatim>\<open>events: Dict[str, List[int]]\<close>, the raw mapping from an event (task) to the list of
    teams (resources) attending it. A Python dict iterates in insertion order, and the
    greedy loops depend on that order, so the dict is an association list in iteration
    order; a dict has no repeated key, which is the side condition
    \<open>distinct (map fst events)\<close> where a theorem needs it.
  \<^item> \<^verbatim>\<open>team_coverage: Dict[int, List[str]]\<close>, the coverage index, again an association list
    in insertion order.
  \<^item> a solution, the pair \<^verbatim>\<open>(selected_teams, len(selected_teams))\<close>.
  Team numbers are Python integers (\<open>int\<close>), event names are strings, and the working set
  \<^verbatim>\<open>uncovered_events\<close> is a set of event names. The \<^verbatim>\<open>print\<close> calls of the two engine
  functions write to the console and do not change what is returned; they are left out.
\<close>

type_synonym event = string
type_synonym team = int
type_synonym events = "(event \<times> team list) list"
type_synonym coverage = "(team \<times> event list) list"
type_synonym solution = "team list \<times> nat"

text \<open>The only exception the engine's own statements can raise is a dictionary lookup
  \<^verbatim>\<open>team_coverage[team]\<close> on a missing key.\<close>

datatype py_error = KeyError

text \<open>\<^verbatim>\<open>excluded_teams or []\<close>: \<^verbatim>\<open>None\<close> (and the empty list) become the empty list.\<close>

fun or_empty :: "team list option \<Rightarrow> team list" where
  "or_empty None = []"
| "or_empty (Some xs) = xs"

text \<open>The slice \<^verbatim>\<open>xs[:k]\<close>: a negative \<open>k\<close> counts from the end.\<close>

definition py_take :: "'a list \<Rightarrow> int \<Rightarrow> 'a list" where
  "py_take xs k =
     (if 0 \<le> k then take (nat k) xs else take (nat (int (length xs) + k)) xs)"

section \<open>Coverage index builder: \<^verbatim>\<open>find_team_coverage\<close>\<close>

text \<open>\<^verbatim>\<open>team_to_events[team].append(event_name)\<close> on a \<^verbatim>\<open>defaultdict(list)\<close>: an existing
  key keeps its place and its list grows at the end; a new key is inserted last.\<close>

definition append_event :: "team \<Rightarrow> event \<Rightarrow> coverage \<Rightarrow> coverage" where
  "append_event team event_name team_to_events =
     AList.map_default team [event_name] (\<lambda>es. es @ [event_name]) team_to_events"

text \<open>The body of the inner \<^verbatim>\<open>for team in teams\<close> loop (lines 123-129).\<close>

definition add_team :: "int \<Rightarrow> team list \<Rightarrow> team list \<Rightarrow> event \<Rightarrow> team \<Rightarrow> coverage \<Rightarrow> coverage" where
  "add_team max_team_number excluded included event_name team team_to_events =
     (if (team \<le> max_team_number \<or> team \<in> set included) \<and> team \<notin> set excluded
      then append_event team event_name team_to_events
      else team_to_events)"

definition find_team_coverage ::
  "events \<Rightarrow> int \<Rightarrow> team list option \<Rightarrow> team list option \<Rightarrow> coverage" where
  "find_team_coverage events max_team_number excluded_teams included_teams =
     (let excluded = or_empty excluded_teams;
          included = or_empty included_teams
      in fold (\<lambda>(event_name, teams) team_to_events.
                 fold (add_team max_team_number excluded included event_name) teams team_to_events)
              events [])"

section \<open>Required-first greedy selector: \<^verbatim>\<open>greedy_set_cover_with_required_team\<close>\<close>

text \<open>The body of the scan \<^verbatim>\<open>for team, team_events in team_coverage.items()\<close> of the
  selector (lines 155-163). The state is \<^verbatim>\<open>(best_team, best_coverage, best_events)\<close>.\<close>

fun sel_step :: "team list \<Rightarrow> event set \<Rightarrow> team \<times> event list
    \<Rightarrow> team option \<times> nat \<times> event set \<Rightarrow> team option \<times> nat \<times> event set" where
  "sel_step selected_teams uncovered_events (team, team_events) (best_team, best_coverage, best_events) =
     (if team \<in> set selected_teams then (best_team, best_coverage, best_events)
      else let coverage_set = set team_events \<inter> uncovered_events;
               coverage = card coverage_set
           in if coverage > best_coverage then (Some team, coverage, coverage_set)
              else (best_team, best_coverage, best_events))"

definition sel_scan :: "coverage \<Rightarrow> team list \<Rightarrow> event set \<Rightarrow> team option \<times> nat \<times> event set" where
  "sel_scan team_coverage selected_teams uncovered_events =
     fold (sel_step selected_teams uncovered_events) team_coverage (None, 0, {})"

text \<open>The loop \<^verbatim>\<open>while uncovered_events\<close> (lines 149-172); \<^verbatim>\<open>break\<close> when the scan found no
  team.\<close>

function sel_loop :: "coverage \<Rightarrow> team list \<Rightarrow> event set \<Rightarrow> team list" where
  "sel_loop team_coverage selected_teams uncovered_events =
     (if uncovered_events = {} then selected_teams
      else case sel_scan team_coverage selected_teams uncovered_events of
             (None, _, _) \<Rightarrow> selected_teams
           | (Some best_team, _, best_events) \<Rightarrow>
               sel_loop team_coverage (selected_teams @ [best_team])
                        (uncovered_events - best_events))"
  by pat_completeness auto


text \<open>Lines 142-147: the seeding step, guarded by
  \<^verbatim>\<open>if required_team and required_team in team_coverage\<close>. The truth value of
  \<^verbatim>\<open>required_team\<close> is false for \<^verbatim>\<open>None\<close> and for the integer \<^verbatim>\<open>0\<close>.\<close>

definition seed_required :: "coverage \<Rightarrow> team option \<Rightarrow> team list \<times> event set \<Rightarrow> team list \<times> event set" where
  "seed_required team_coverage required_team st =
     (case st of (selected_teams, uncovered_events) \<Rightarrow>
        (case required_team of
           None \<Rightarrow> (selected_teams, uncovered_events)
         | Some r \<Rightarrow>
             if r \<noteq> 0 then
               (case map_of team_coverage r of
                  Some covered_events \<Rightarrow> (selected_teams @ [r], uncovered_events - set covered_events)
                | None \<Rightarrow> (selected_teams, uncovered_events))
             else (selected_teams, uncovered_events)))"

definition greedy_set_cover_with_required_team ::
  "events \<Rightarrow> team option \<Rightarrow> int \<Rightarrow> team list option \<Rightarrow> team list option \<Rightarrow> solution" where
  "greedy_set_cover_with_required_team events required_team max_team_number excluded_teams included_teams =
     (let uncovered_events = set (map fst events);
          selected_teams = [];
          team_coverage = find_team_coverage events max_team_number excluded_teams included_teams;
          (selected_teams, uncovered_events) =
             seed_required team_coverage required_team (selected_teams, uncovered_events);
          selected_teams = sel_loop team_coverage selected_teams uncovered_events
      in (selected_teams, length selected_teams))"

section \<open>Alternative-solution explorer: \<^verbatim>\<open>find_alternative_solutions\<close>\<close>

text \<open>The scan of the explorer's loop (lines 219-225); its state is
  \<^verbatim>\<open>(best_team, best_coverage)\<close>.\<close>

fun alt_step :: "team list \<Rightarrow> event set \<Rightarrow> team \<times> event list
    \<Rightarrow> team option \<times> nat \<Rightarrow> team option \<times> nat" where
  "alt_step selected_teams uncovered_events (team, team_events) (best_team, best_coverage) =
     (if team \<in> set selected_teams then (best_team, best_coverage)
      else let coverage = card (set team_events \<inter> uncovered_events)
           in if coverage > best_coverage then (Some team, coverage)
              else (best_team, best_coverage))"

definition alt_scan :: "coverage \<Rightarrow> team list \<Rightarrow> event set \<Rightarrow> team option \<times> nat" where
  "alt_scan team_coverage selected_teams uncovered_events =
     fold (alt_step selected_teams uncovered_events) team_coverage (None, 0)"

text \<open>The loop of lines 215-232. The chosen team's events are looked up again with
  \<^verbatim>\<open>team_coverage[best_team]\<close>.\<close>

function alt_loop :: "coverage \<Rightarrow> team list \<Rightarrow> event set \<Rightarrow> py_error + team list" where
  "alt_loop team_coverage selected_teams uncovered_events =
     (if uncovered_events = {} then Inr selected_teams
      else case alt_scan team_coverage selected_teams uncovered_events of
             (None, _) \<Rightarrow> Inr selected_teams
           | (Some best_team, _) \<Rightarrow>
               (case map_of team_coverage best_team of
                  None \<Rightarrow> Inl KeyError
                | Some team_events \<Rightarrow>
                    alt_loop team_coverage (selected_teams @ [best_team])
                      (uncovered_events - (set team_events \<inter> uncovered_events))))"
  by pat_completeness auto


text \<open>Lines 235-237: the union of the indexed events of the selected teams.\<close>

fun all_covered_of :: "coverage \<Rightarrow> team list \<Rightarrow> event set \<Rightarrow> py_error + event set" where
  "all_covered_of team_coverage [] all_covered = Inr all_covered"
| "all_covered_of team_coverage (team # teams) all_covered =
     (case map_of team_coverage team of
        None \<Rightarrow> Inl KeyError
      | Some team_events \<Rightarrow> all_covered_of team_coverage teams (all_covered \<union> set team_events))"

text \<open>Lines 204-212: the start of a reseeded search, the required team (when truthy,
  different from the seed and indexed) and then the seed (when indexed).\<close>

definition seed_start :: "coverage \<Rightarrow> events \<Rightarrow> team option \<Rightarrow> team \<Rightarrow> team list \<times> event set" where
  "seed_start team_coverage events required_team start_team =
     (let uncovered_events = set (map fst events);
          selected_teams = [];
          (selected_teams, uncovered_events) =
            (if required_team \<noteq> Some start_team
             then seed_required team_coverage required_team (selected_teams, uncovered_events)
             else (selected_teams, uncovered_events))
      in case map_of team_coverage start_team of
           Some team_events \<Rightarrow>
             (selected_teams @ [start_team],
              uncovered_events - (set team_events \<inter> uncovered_events))
         | None \<Rightarrow> (selected_teams, uncovered_events))"

text \<open>Lines 239-243: a search result is appended when it covers as many events as the
  raw mapping has and no earlier solution has the same set of teams.\<close>

definition accept_solution :: "events \<Rightarrow> event set \<Rightarrow> team list \<Rightarrow> solution list \<Rightarrow> solution list" where
  "accept_solution events all_covered selected_teams solutions =
     (if card all_covered = length events then
        (if \<not> list_ex (\<lambda>sol. set (fst sol) = set selected_teams) solutions
         then solutions @ [(selected_teams, length selected_teams)]
         else solutions)
      else solutions)"

text \<open>One pass of \<^verbatim>\<open>for start_team in multi_event_teams[:max_solutions]\<close> (lines 197-243).\<close>

definition alt_body :: "coverage \<Rightarrow> events \<Rightarrow> team option \<Rightarrow> team \<Rightarrow> solution list
    \<Rightarrow> py_error + solution list" where
  "alt_body team_coverage events required_team start_team solutions =
     (if Some start_team = required_team \<and> length solutions > 0 then Inr solutions
      else case seed_start team_coverage events required_team start_team of
        (selected_teams, uncovered_events) \<Rightarrow>
          (case alt_loop team_coverage selected_teams uncovered_events of
             Inl e \<Rightarrow> Inl e
           | Inr selected_teams \<Rightarrow>
               (case all_covered_of team_coverage selected_teams {} of
                  Inl e \<Rightarrow> Inl e
                | Inr all_covered \<Rightarrow>
                    Inr (accept_solution events all_covered selected_teams solutions))))"

fun explore :: "coverage \<Rightarrow> events \<Rightarrow> team option \<Rightarrow> team list \<Rightarrow> solution list
    \<Rightarrow> py_error + solution list" where
  "explore team_coverage events required_team [] solutions = Inr solutions"
| "explore team_coverage events required_team (start_team # seeds) solutions =
     (case alt_body team_coverage events required_team start_team solutions of
        Inl e \<Rightarrow> Inl e
      | Inr solutions' \<Rightarrow> explore team_coverage events required_team seeds solutions')"

text \<open>Lines 186-193: the seed list.\<close>

definition seed_list :: "coverage \<Rightarrow> team option \<Rightarrow> team list" where
  "seed_list team_coverage required_team =
     (let multi_event_teams =
            map fst (filter (\<lambda>(team, events_list). length events_list \<ge> 2) team_coverage)
      in case required_team of
           None \<Rightarrow> multi_event_teams
         | Some r \<Rightarrow>
             if r \<noteq> 0 then
               r # (if r \<in> set multi_event_teams then remove1 r multi_event_teams
                    else multi_event_teams)
             else multi_event_teams)"

definition find_alternative_solutions ::
  "events \<Rightarrow> team option \<Rightarrow> int \<Rightarrow> int \<Rightarrow> team list option \<Rightarrow> team list option
    \<Rightarrow> py_error + solution list" where
  "find_alternative_solutions events required_team max_solutions max_team_number excluded_teams included_teams =
     (let team_coverage = find_team_coverage events max_team_number excluded_teams included_teams;
          solution1 = greedy_set_cover_with_required_team events required_team max_team_number
                        excluded_teams included_teams;
          solutions = [solution1];
          multi_event_teams = seed_list team_coverage required_team
      in case explore team_coverage events required_team
                (py_take multi_event_teams max_solutions) solutions of
           Inl e \<Rightarrow> Inl e
         | Inr solutions \<Rightarrow> Inr (py_take solutions max_solutions))"

text \<open>A well-formed search result: distinct indexed teams with their count, whose indexed
  events number as many as the raw mapping has events (the test of line 239).\<close>

definition sound_solution :: "coverage \<Rightarrow> events \<Rightarrow> solution \<Rightarrow> bool" where
  "sound_solution tc events sol \<longleftrightarrow>
     distinct (fst sol) \<and> set (fst sol) \<subseteq> fst ` set tc \<and> snd sol = length (fst sol) \<and>
     (\<exists>ac. all_covered_of tc (fst sol) {} = Inr ac \<and> card ac = length events)"

text \<open>Two notions used to compare runs on raw mappings with the same content. The events
  indexed under a team, as a multiset (a team that is not a key has none); and two indexes
  that list the same teams in the same order, each with the same events up to their order in
  the list.\<close>

definition indexed_events :: "coverage \<Rightarrow> team \<Rightarrow> event multiset" where
  "indexed_events tc t = (case map_of tc t of None \<Rightarrow> {#} | Some es \<Rightarrow> mset es)"

definition same_index :: "coverage \<Rightarrow> coverage \<Rightarrow> bool" where
  "same_index tc tc' \<longleftrightarrow>
     list_all2 (\<lambda>p q. fst p = fst q \<and> mset (snd p) = mset (snd q)) tc tc'"

section \<open>Termination of the two greedy loops\<close>

lemma sel_scan_fold_inv:
  assumes "fold (sel_step sel U) tc st = (Some b, c, be)"
    and "\<And>b0 c0 be0. st = (Some b0, c0, be0) \<Longrightarrow> b0 \<in> K \<and> b0 \<notin> set sel"
    and "fst ` set tc \<subseteq> K"
  shows "b \<in> K \<and> b \<notin> set sel"
  using assms
proof (induction tc arbitrary: st)
  case Nil
  then show ?case by simp
next
  case (Cons p tc)
  obtain t es where p: "p = (t, es)" by (cases p)
  obtain bt bc bev where st: "st = (bt, bc, bev)" by (cases st)
  show ?case
  proof (rule Cons.IH [of "sel_step sel U p st"])
    show "fold (sel_step sel U) tc (sel_step sel U p st) = (Some b, c, be)"
      using Cons.prems(1) by simp
    show "fst ` set tc \<subseteq> K" using Cons.prems(3) by auto
    fix b0 c0 be0
    assume "sel_step sel U p st = (Some b0, c0, be0)"
    then show "b0 \<in> K \<and> b0 \<notin> set sel"
      using Cons.prems(2,3) unfolding p st
      by (auto simp: Let_def split: if_splits)
  qed
qed

lemma sel_scan_Some_fresh:
  "sel_scan tc sel U = (Some b, c, be) \<Longrightarrow> b \<in> fst ` set tc \<and> b \<notin> set sel"
  unfolding sel_scan_def
  by (rule sel_scan_fold_inv [where st = "(None, 0, {})"]) auto

lemma alt_scan_fold_inv:
  assumes "fold (alt_step sel U) tc st = (Some b, c)"
    and "\<And>b0 c0. st = (Some b0, c0) \<Longrightarrow> b0 \<in> K \<and> b0 \<notin> set sel"
    and "fst ` set tc \<subseteq> K"
  shows "b \<in> K \<and> b \<notin> set sel"
  using assms
proof (induction tc arbitrary: st)
  case Nil
  then show ?case by simp
next
  case (Cons p tc)
  obtain t es where p: "p = (t, es)" by (cases p)
  obtain bt bc where st: "st = (bt, bc)" by (cases st)
  show ?case
  proof (rule Cons.IH [of "alt_step sel U p st"])
    show "fold (alt_step sel U) tc (alt_step sel U p st) = (Some b, c)"
      using Cons.prems(1) by simp
    show "fst ` set tc \<subseteq> K" using Cons.prems(3) by auto
    fix b0 c0
    assume "alt_step sel U p st = (Some b0, c0)"
    then show "b0 \<in> K \<and> b0 \<notin> set sel"
      using Cons.prems(2,3) unfolding p st
      by (auto simp: Let_def split: if_splits)
  qed
qed

lemma alt_scan_Some_fresh:
  "alt_scan tc sel U = (Some b, c) \<Longrightarrow> b \<in> fst ` set tc \<and> b \<notin> set sel"
  unfolding alt_scan_def
  by (rule alt_scan_fold_inv [where st = "(None, 0)"]) auto

lemma unselected_decreases:
  assumes "b \<in> fst ` set tc" and "b \<notin> set sel"
  shows "card (fst ` set tc - set (sel @ [b])) < card (fst ` set tc - set sel)"
proof -
  have "fst ` set tc - set (sel @ [b]) \<subset> fst ` set tc - set sel"
    using assms by auto
  then show ?thesis
    by (intro psubset_card_mono) auto
qed

termination sel_loop
proof (relation "measure (\<lambda>(tc, sel, U). card (fst ` set tc - set sel))")
  show "wf (measure (\<lambda>(tc, sel, U). card (fst ` set tc - set sel)))" by simp
next
  fix team_coverage selected_teams uncovered_events x1 x2 x2a x3 y
  assume "(x1, x2) = sel_scan team_coverage selected_teams uncovered_events"
    and "x1 = Some x2a" and "(x3, y) = x2"
  then have "sel_scan team_coverage selected_teams uncovered_events = (Some x2a, x3, y)"
    by simp
  from sel_scan_Some_fresh [OF this]
  have "x2a \<in> fst ` set team_coverage" and "x2a \<notin> set selected_teams" by auto
  then have "card (fst ` set team_coverage - set (selected_teams @ [x2a]))
      < card (fst ` set team_coverage - set selected_teams)"
    by (rule unselected_decreases)
  then show "((team_coverage, selected_teams @ [x2a], uncovered_events - y),
          team_coverage, selected_teams, uncovered_events)
        \<in> measure (\<lambda>(tc, sel, U). card (fst ` set tc - set sel))"
    by simp
qed

termination alt_loop
proof (relation "measure (\<lambda>(tc, sel, U). card (fst ` set tc - set sel))")
  show "wf (measure (\<lambda>(tc, sel, U). card (fst ` set tc - set sel)))" by simp
next
  fix team_coverage selected_teams uncovered_events x1 x2 x2a x2b
  assume "(x1, x2) = alt_scan team_coverage selected_teams uncovered_events"
    and "x1 = Some x2a"
  then have "alt_scan team_coverage selected_teams uncovered_events = (Some x2a, x2)"
    by simp
  from alt_scan_Some_fresh [OF this]
  have "x2a \<in> fst ` set team_coverage" and "x2a \<notin> set selected_teams" by auto
  then have "card (fst ` set team_coverage - set (selected_teams @ [x2a]))
      < card (fst ` set team_coverage - set selected_teams)"
    by (rule unselected_decreases)
  then show "((team_coverage, selected_teams @ [x2a],
           uncovered_events - (set x2b \<inter> uncovered_events)),
          team_coverage, selected_teams, uncovered_events)
        \<in> measure (\<lambda>(tc, sel, U). card (fst ` set tc - set sel))"
    by simp
qed



declare sel_loop.simps [simp del] alt_loop.simps [simp del]


section \<open>Facts about the coverage index\<close>


lemma keys_append_event:
  "fst ` set (append_event t e tc) = insert t (fst ` set tc)"
  unfolding append_event_def by (rule dom_map_default)

lemma distinct_append_event:
  "distinct (map fst tc) \<Longrightarrow> distinct (map fst (append_event t e tc))"
  unfolding append_event_def by (rule distinct_map_default)

lemma keys_add_team:
  "fst ` set (add_team m ex inc e t tc) =
     fst ` set tc \<union> {t'. t' = t \<and> (t \<le> m \<or> t \<in> set inc) \<and> t \<notin> set ex}"
  by (auto simp: add_team_def keys_append_event)

lemma keys_fold_add_team:
  "fst ` set (fold (add_team m ex inc e) ts tc) =
     fst ` set tc \<union> {t \<in> set ts. (t \<le> m \<or> t \<in> set inc) \<and> t \<notin> set ex}"
proof (induction ts arbitrary: tc)
  case Nil
  then show ?case by simp
next
  case (Cons t ts)
  show ?case
    unfolding fold_simps Cons.IH keys_add_team by auto
qed

lemma keys_fold_events:
  "fst ` set (fold (\<lambda>(e, ts). fold (add_team m ex inc e) ts) evs tc) =
     fst ` set tc \<union> {t. (\<exists>(e, ts) \<in> set evs. t \<in> set ts) \<and> (t \<le> m \<or> t \<in> set inc) \<and> t \<notin> set ex}"
proof (induction evs arbitrary: tc)
  case Nil
  then show ?case by simp
next
  case (Cons p evs)
  obtain e ts where p: "p = (e, ts)" by (cases p)
  show ?case
    unfolding p fold_simps Cons.IH by (auto simp: keys_fold_add_team)
qed

lemma keys_find_team_coverage:
  "fst ` set (find_team_coverage events m ex inc) =
     {t. (\<exists>(e, ts) \<in> set events. t \<in> set ts) \<and>
         (t \<le> m \<or> t \<in> set (or_empty inc)) \<and> t \<notin> set (or_empty ex)}"
  unfolding find_team_coverage_def Let_def
  using keys_fold_events [of m "or_empty ex" "or_empty inc" events "[]"] by simp

lemma distinct_add_team:
  "distinct (map fst tc) \<Longrightarrow> distinct (map fst (add_team m ex inc e t tc))"
  by (simp add: add_team_def distinct_append_event)

lemma distinct_fold_add_team:
  "distinct (map fst tc) \<Longrightarrow> distinct (map fst (fold (add_team m ex inc e) ts tc))"
  by (induction ts arbitrary: tc) (simp_all add: distinct_add_team)

lemma distinct_fold_events:
  "distinct (map fst tc) \<Longrightarrow>
   distinct (map fst (fold (\<lambda>(e, ts). fold (add_team m ex inc e) ts) evs tc))"
proof (induction evs arbitrary: tc)
  case Nil
  then show ?case by simp
next
  case (Cons p evs)
  obtain e ts where p: "p = (e, ts)" by (cases p)
  show ?case
    unfolding p fold_simps using Cons.prems
    by (auto intro!: Cons.IH distinct_fold_add_team)
qed

lemma distinct_find_team_coverage:
  "distinct (map fst (find_team_coverage events m ex inc))"
  unfolding find_team_coverage_def Let_def
  by (rule distinct_fold_events) simp

text \<open>Every event listed under a team is a key of the raw mapping.\<close>

lemma values_append_event:
  assumes "\<forall>(t, es) \<in> set tc. set es \<subseteq> S" and "e \<in> S"
  shows "\<forall>(t', es) \<in> set (append_event t e tc). set es \<subseteq> S"
  using assms unfolding append_event_def
  by (induction tc) (auto split: if_splits)

lemma values_add_team:
  assumes "\<forall>(t, es) \<in> set tc. set es \<subseteq> S" and "e \<in> S"
  shows "\<forall>(t', es) \<in> set (add_team m ex inc e t tc). set es \<subseteq> S"
  using values_append_event [OF assms] assms(1) by (simp add: add_team_def)

lemma values_fold_add_team:
  assumes "\<forall>(t, es) \<in> set tc. set es \<subseteq> S" and "e \<in> S"
  shows "\<forall>(t', es) \<in> set (fold (add_team m ex inc e) ts tc). set es \<subseteq> S"
  using assms
proof (induction ts arbitrary: tc)
  case Nil
  then show ?case by simp
next
  case (Cons t ts)
  show ?case
    unfolding fold_simps
    by (rule Cons.IH [OF values_add_team [OF Cons.prems] Cons.prems(2)])
qed

lemma values_fold_events:
  assumes "\<forall>(t, es) \<in> set tc. set es \<subseteq> S" and "fst ` set evs \<subseteq> S"
  shows "\<forall>(t', es) \<in> set (fold (\<lambda>(e, ts). fold (add_team m ex inc e) ts) evs tc). set es \<subseteq> S"
  using assms
proof (induction evs arbitrary: tc)
  case Nil
  then show ?case by simp
next
  case (Cons p evs)
  obtain e ts where p: "p = (e, ts)" by (cases p)
  have e: "e \<in> S" using Cons.prems(2) p by simp
  have rest: "fst ` set evs \<subseteq> S" using Cons.prems(2) by simp
  show ?case
    unfolding p fold_simps prod.case
    by (rule Cons.IH [OF values_fold_add_team [OF Cons.prems(1) e] rest])
qed

lemma values_find_team_coverage:
  "(t, es) \<in> set (find_team_coverage events m ex inc) \<Longrightarrow> set es \<subseteq> fst ` set events"
  using values_fold_events [of "[]" "fst ` set events" events m "or_empty ex" "or_empty inc"]
  unfolding find_team_coverage_def Let_def by auto

section \<open>The scans choose the first team of largest marginal coverage\<close>

lemma sel_fold_snoc:
  "fold (sel_step sel U) (tc @ [p]) st = sel_step sel U p (fold (sel_step sel U) tc st)"
  by simp

lemma sel_fold_char:
  "fold (sel_step sel U) tc (None, 0, {}) = (bt, bc, be) \<Longrightarrow>
   (case bt of
      None \<Rightarrow> bc = 0 \<and> be = {} \<and> (\<forall>(t, es) \<in> set tc. t \<in> set sel \<or> card (set es \<inter> U) = 0)
    | Some b \<Rightarrow>
        (\<exists>pre es post. tc = pre @ (b, es) # post \<and> b \<notin> set sel \<and>
           bc = card (set es \<inter> U) \<and> be = set es \<inter> U \<and> 0 < bc \<and>
           (\<forall>(t, es') \<in> set pre. t \<in> set sel \<or> card (set es' \<inter> U) < bc) \<and>
           (\<forall>(t, es') \<in> set post. t \<in> set sel \<or> card (set es' \<inter> U) \<le> bc)))"
proof (induction tc arbitrary: bt bc be rule: rev_induct)
  case Nil
  then show ?case by simp
next
  case (snoc p tc)
  obtain t es where p: "p = (t, es)" by (cases p)
  obtain bt0 bc0 be0 where st0: "fold (sel_step sel U) tc (None, 0, {}) = (bt0, bc0, be0)"
    by (cases "fold (sel_step sel U) tc (None, 0, {})") auto
  note IH = snoc.IH [OF st0]
  have step: "sel_step sel U (t, es) (bt0, bc0, be0) = (bt, bc, be)"
    using snoc.prems st0 p by simp
  show ?case
  proof (cases "t \<notin> set sel \<and> bc0 < card (set es \<inter> U)")
    case True
    then have res: "bt = Some t" "bc = card (set es \<inter> U)" "be = set es \<inter> U"
      using step by (auto simp: Let_def)
    have "\<forall>(t', es') \<in> set tc. t' \<in> set sel \<or> card (set es' \<inter> U) < bc"
    proof (cases bt0)
      case None
      then show ?thesis using IH True res by fastforce
    next
      case (Some b0)
      then obtain pre es0 post where
        tc: "tc = pre @ (b0, es0) # post" and
        bc0: "bc0 = card (set es0 \<inter> U)" and
        pre: "\<forall>(t, es') \<in> set pre. t \<in> set sel \<or> card (set es' \<inter> U) < bc0" and
        post: "\<forall>(t, es') \<in> set post. t \<in> set sel \<or> card (set es' \<inter> U) \<le> bc0"
        using IH by auto
      have lt: "bc0 < bc" using True res by simp
      show ?thesis
        unfolding tc using pre post bc0 lt by fastforce
    qed
    moreover have "tc @ [p] = tc @ (t, es) # []" using p by simp
    ultimately show ?thesis
      using True res by (simp only: option.case) (intro exI [of _ tc] exI [of _ es] exI [of _ "[]"], auto)
  next
    case False
    then have same: "bt = bt0" "bc = bc0" "be = be0"
      using step by (auto simp: Let_def split: if_splits)
    show ?thesis
    proof (cases bt0)
      case None
      then show ?thesis using IH same False p by auto
    next
      case (Some b0)
      then obtain pre es0 post where
        tc: "tc = pre @ (b0, es0) # post" and b0: "b0 \<notin> set sel" and
        bc0: "bc0 = card (set es0 \<inter> U)" and be0: "be0 = set es0 \<inter> U" and pos: "0 < bc0" and
        pre: "\<forall>(t, es') \<in> set pre. t \<in> set sel \<or> card (set es' \<inter> U) < bc0" and
        post: "\<forall>(t, es') \<in> set post. t \<in> set sel \<or> card (set es' \<inter> U) \<le> bc0"
        using IH by auto
      have post': "\<forall>(t, es') \<in> set (post @ [p]). t \<in> set sel \<or> card (set es' \<inter> U) \<le> bc0"
        using post False p by auto
      have "tc @ [p] = pre @ (b0, es0) # (post @ [p])" using tc by simp
      then show ?thesis
        using Some same b0 bc0 be0 pos pre post'
        by (simp only: option.case) (intro exI [of _ pre] exI [of _ es0] exI [of _ "post @ [p]"], simp)
    qed
  qed
qed

lemma sel_scan_Some:
  assumes "sel_scan tc sel U = (Some b, bc, be)"
  shows "\<exists>pre es post. tc = pre @ (b, es) # post \<and> b \<notin> set sel \<and>
           bc = card (set es \<inter> U) \<and> be = set es \<inter> U \<and> 0 < bc \<and>
           (\<forall>(t, es') \<in> set pre. t \<in> set sel \<or> card (set es' \<inter> U) < bc) \<and>
           (\<forall>(t, es') \<in> set post. t \<in> set sel \<or> card (set es' \<inter> U) \<le> bc)"
  using sel_fold_char [of sel U tc "Some b" bc be] assms unfolding sel_scan_def by simp


text \<open>The explorer's scan is the selector's scan without the third component.\<close>

lemma alt_fold_sel_fold:
  "fold (alt_step sel U) tc (bt, bc) =
     (case fold (sel_step sel U) tc (bt, bc, be) of (bt', bc', be') \<Rightarrow> (bt', bc'))"
proof (induction tc arbitrary: bt bc be)
  case Nil
  then show ?case by simp
next
  case (Cons p tc)
  obtain t es where p: "p = (t, es)" by (cases p)
  show ?case
    unfolding p fold_simps
    by (simp add: Let_def Cons.IH [symmetric])
qed

lemma alt_scan_sel_scan:
  "alt_scan tc sel U = (case sel_scan tc sel U of (bt, bc, be) \<Rightarrow> (bt, bc))"
  unfolding alt_scan_def sel_scan_def by (rule alt_fold_sel_fold)

lemma alt_scan_Some:
  assumes "alt_scan tc sel U = (Some b, bc)"
  shows "\<exists>pre es post. tc = pre @ (b, es) # post \<and> b \<notin> set sel \<and>
           bc = card (set es \<inter> U) \<and> 0 < bc \<and>
           (\<forall>(t, es') \<in> set pre. t \<in> set sel \<or> card (set es' \<inter> U) < bc) \<and>
           (\<forall>(t, es') \<in> set post. t \<in> set sel \<or> card (set es' \<inter> U) \<le> bc)"
proof -
  obtain be where "sel_scan tc sel U = (Some b, bc, be)"
    using assms unfolding alt_scan_sel_scan by (cases "sel_scan tc sel U") auto
  from sel_scan_Some [OF this] show ?thesis by blast
qed


section \<open>Results of the two greedy loops\<close>

lemma round_bounds:
  assumes b: "b \<in> K" "b \<notin> set sel" and be: "be \<noteq> {}" "be \<subseteq> U" and fin: "finite K" "finite U"
    and n: "n \<le> card (K - set (sel @ [b]))" "n \<le> card (U - be)"
  shows "Suc n \<le> card (K - set sel) \<and> Suc n \<le> card U"
proof -
  have "K - set (sel @ [b]) \<subset> K - set sel" using b by auto
  then have "card (K - set (sel @ [b])) < card (K - set sel)"
    using fin by (intro psubset_card_mono) auto
  moreover have "U - be \<subset> U" using be by auto
  then have "card (U - be) < card U"
    using fin by (intro psubset_card_mono) auto
  ultimately show ?thesis using n by linarith
qed

lemma sel_loop_result:
  assumes "distinct sel" and "finite U"
  shows "\<exists>new. sel_loop tc sel U = sel @ new \<and> distinct (sel @ new) \<and>
           set new \<subseteq> fst ` set tc \<and>
           length new \<le> card (fst ` set tc - set sel) \<and> length new \<le> card U"
  using assms
proof (induction tc sel U rule: sel_loop.induct)
  case (1 tc sel U)
  show ?case
  proof (cases "U = {}")
    case True
    then show ?thesis using "1.prems" by (subst sel_loop.simps) simp
  next
    case False
    obtain bt bc be where scan: "sel_scan tc sel U = (bt, bc, be)"
      by (cases "sel_scan tc sel U") auto
    show ?thesis
    proof (cases bt)
      case None
      then show ?thesis using False scan "1.prems" by (subst sel_loop.simps) simp
    next
      case (Some b)
      from sel_scan_Some [OF scan [unfolded Some]]
      obtain pre es post where tc: "tc = pre @ (b, es) # post" and b: "b \<notin> set sel"
        and be: "be = set es \<inter> U" and pos: "0 < bc" and bc: "bc = card (set es \<inter> U)"
        by blast
      have bk: "b \<in> fst ` set tc" unfolding tc by simp
      have ne: "be \<noteq> {}" using pos bc be by auto
      have sub: "be \<subseteq> U" using be by simp
      have "\<exists>new. sel_loop tc (sel @ [b]) (U - be) = (sel @ [b]) @ new \<and>
              distinct ((sel @ [b]) @ new) \<and> set new \<subseteq> fst ` set tc \<and>
              length new \<le> card (fst ` set tc - set (sel @ [b])) \<and> length new \<le> card (U - be)"
      proof (rule "1.IH" [OF False _ _ _ _ _])
        show "(bt, (bc, be)) = sel_scan tc sel U" using scan by simp
        show "bt = Some b" by (fact Some)
        show "(bc, be) = (bc, be)" by simp
        show "distinct (sel @ [b])" using "1.prems"(1) b by simp
        show "finite (U - be)" using "1.prems"(2) by simp
      qed
      then obtain new where
        eq: "sel_loop tc (sel @ [b]) (U - be) = (sel @ [b]) @ new" and
        d: "distinct ((sel @ [b]) @ new)" and s: "set new \<subseteq> fst ` set tc" and
        n1: "length new \<le> card (fst ` set tc - set (sel @ [b]))" and
        n2: "length new \<le> card (U - be)"
        by blast
      have unfold: "sel_loop tc sel U = sel_loop tc (sel @ [b]) (U - be)"
        using False scan Some by (subst sel_loop.simps) simp
      have bounds: "Suc (length new) \<le> card (fst ` set tc - set sel) \<and> Suc (length new) \<le> card U"
        by (rule round_bounds [OF bk b ne sub _ "1.prems"(2) n1 n2]) simp
      show ?thesis
      proof (intro exI [of _ "b # new"] conjI)
        show "sel_loop tc sel U = sel @ b # new" using unfold eq by simp
        show "distinct (sel @ b # new)" using d by simp
        show "set (b # new) \<subseteq> fst ` set tc" using s bk by simp
        show "length (b # new) \<le> card (fst ` set tc - set sel)" using bounds by simp
        show "length (b # new) \<le> card U" using bounds by simp
      qed
    qed
  qed
qed

lemma map_of_decomp:
  assumes "distinct (map fst tc)" and "tc = pre @ (b, es) # post"
  shows "map_of tc b = Some es"
proof -
  have "(b, es) \<in> set tc" using assms(2) by simp
  then show ?thesis using assms(1) by simp
qed

lemma alt_loop_result:
  assumes "distinct sel" and "finite U" and "distinct (map fst tc)"
  shows "\<exists>new. alt_loop tc sel U = Inr (sel @ new) \<and> distinct (sel @ new) \<and>
           set new \<subseteq> fst ` set tc \<and>
           length new \<le> card (fst ` set tc - set sel) \<and> length new \<le> card U"
  using assms
proof (induction tc sel U rule: alt_loop.induct)
  case (1 tc sel U)
  show ?case
  proof (cases "U = {}")
    case True
    then show ?thesis using "1.prems" by (subst alt_loop.simps) simp
  next
    case False
    obtain bt bc where scan: "alt_scan tc sel U = (bt, bc)"
      by (cases "alt_scan tc sel U") auto
    show ?thesis
    proof (cases bt)
      case None
      then show ?thesis using False scan "1.prems" by (subst alt_loop.simps) simp
    next
      case (Some b)
      from alt_scan_Some [OF scan [unfolded Some]]
      obtain pre es post where tc: "tc = pre @ (b, es) # post" and b: "b \<notin> set sel"
        and pos: "0 < bc" and bc: "bc = card (set es \<inter> U)"
        by blast
      define be where "be = set es \<inter> U"
      have look: "map_of tc b = Some es" by (rule map_of_decomp [OF "1.prems"(3) tc])
      have bk: "b \<in> fst ` set tc" unfolding tc by simp
      have ne: "be \<noteq> {}" using pos bc be_def by auto
      have sub: "be \<subseteq> U" using be_def by simp
      have "\<exists>new. alt_loop tc (sel @ [b]) (U - be) = Inr ((sel @ [b]) @ new) \<and>
              distinct ((sel @ [b]) @ new) \<and> set new \<subseteq> fst ` set tc \<and>
              length new \<le> card (fst ` set tc - set (sel @ [b])) \<and> length new \<le> card (U - be)"
        unfolding be_def
      proof (rule "1.IH" [OF False _ _ _ _ _])
        show "(bt, bc) = alt_scan tc sel U" using scan by simp
        show "bt = Some b" by (fact Some)
        show "map_of tc b = Some es" by (fact look)
        show "distinct (sel @ [b])" using "1.prems"(1) b by simp
        show "finite (U - set es \<inter> U)" using "1.prems"(2) by simp
        show "distinct (map fst tc)" by (fact "1.prems"(3))
      qed
      then obtain new where
        eq: "alt_loop tc (sel @ [b]) (U - be) = Inr ((sel @ [b]) @ new)" and
        d: "distinct ((sel @ [b]) @ new)" and s: "set new \<subseteq> fst ` set tc" and
        n1: "length new \<le> card (fst ` set tc - set (sel @ [b]))" and
        n2: "length new \<le> card (U - be)"
        by blast
      have unfold: "alt_loop tc sel U = alt_loop tc (sel @ [b]) (U - be)"
        using False scan Some look unfolding be_def by (subst alt_loop.simps) simp
      have bounds: "Suc (length new) \<le> card (fst ` set tc - set sel) \<and> Suc (length new) \<le> card U"
        by (rule round_bounds [OF bk b ne sub _ "1.prems"(2) n1 n2]) simp
      show ?thesis
      proof (intro exI [of _ "b # new"] conjI)
        show "alt_loop tc sel U = Inr (sel @ b # new)" using unfold eq by simp
        show "distinct (sel @ b # new)" using d by simp
        show "set (b # new) \<subseteq> fst ` set tc" using s bk by simp
        show "length (b # new) \<le> card (fst ` set tc - set sel)" using bounds by simp
        show "length (b # new) \<le> card U" using bounds by simp
      qed
    qed
  qed
qed

section \<open>Invariants of the explorer\<close>


lemma map_of_Some_key: "map_of tc t = Some es \<Longrightarrow> t \<in> fst ` set tc"
  by (metis domI dom_map_of_conv_image_fst)

lemma seed_required_cases:
  "seed_required tc r (sel, U) = (sel, U) \<or>
   (\<exists>x es. r = Some x \<and> x \<noteq> 0 \<and> map_of tc x = Some es \<and>
            seed_required tc r (sel, U) = (sel @ [x], U - set es))"
  by (auto simp: seed_required_def split: option.splits)

lemma seed_start_props:
  assumes "seed_start tc events r s = (sel, U)"
  shows "distinct sel \<and> set sel \<subseteq> fst ` set tc \<and> finite U"
proof -
  define st where "st = (if r \<noteq> Some s then seed_required tc r ([], set (map fst events))
                         else ([], set (map fst events)))"
  obtain sel1 U1 where st: "st = (sel1, U1)" by (cases st)
  have "st = ([], set (map fst events)) \<or>
        (\<exists>x es. x \<noteq> s \<and> map_of tc x = Some es \<and> st = ([x], set (map fst events) - set es))"
    using seed_required_cases [of tc r "[]" "set (map fst events)"]
    unfolding st_def by auto
  then have p1: "(sel1 = [] \<or> (\<exists>x. x \<noteq> s \<and> x \<in> fst ` set tc \<and> sel1 = [x])) \<and> finite U1"
    unfolding st using map_of_Some_key [of tc] by auto
  have eq: "(sel, U) = (case map_of tc s of
           Some team_events \<Rightarrow> (sel1 @ [s], U1 - (set team_events \<inter> U1))
         | None \<Rightarrow> (sel1, U1))"
    using assms st unfolding seed_start_def Let_def st_def by simp
  show ?thesis
  proof (cases "map_of tc s")
    case None
    then show ?thesis using eq p1 by force
  next
    case (Some es)
    then have "s \<in> fst ` set tc" by (rule map_of_Some_key)
    then show ?thesis using eq p1 Some by force
  qed
qed

lemma all_covered_of_total:
  "set sel \<subseteq> fst ` set tc \<Longrightarrow> \<exists>ac. all_covered_of tc sel acc = Inr ac"
proof (induction sel arbitrary: acc)
  case Nil
  then show ?case by simp
next
  case (Cons t sel)
  then obtain es where "map_of tc t = Some es"
    by (metis domD dom_map_of_conv_image_fst list.set_intros(1) subsetD)
  then show ?case using Cons by simp
qed

lemma all_covered_of_sub:
  assumes "\<forall>(t, es) \<in> set tc. set es \<subseteq> S" and "acc \<subseteq> S"
    and "all_covered_of tc sel acc = Inr ac"
  shows "ac \<subseteq> S"
  using assms(2,3)
proof (induction sel arbitrary: acc)
  case Nil
  then show ?case by simp
next
  case (Cons t sel)
  then obtain es where look: "map_of tc t = Some es"
    and rest: "all_covered_of tc sel (acc \<union> set es) = Inr ac"
    by (auto split: option.splits)
  have "set es \<subseteq> S" using assms(1) map_of_SomeD [OF look] by auto
  then show ?case using Cons.IH [OF _ rest] Cons.prems(1) by simp
qed

text \<open>What one pass of the explorer's \<open>for\<close> loop can do to the list of solutions.\<close>

lemma accept_solution_cases:
  "accept_solution events ac sel sols = sols \<or>
   (accept_solution events ac sel sols = sols @ [(sel, length sel)] \<and>
    card ac = length events \<and> set sel \<notin> (\<lambda>sol. set (fst sol)) ` set sols)"
  by (auto simp: accept_solution_def list_ex_iff)

lemma alt_body_cases:
  assumes "distinct (map fst tc)"
  shows "alt_body tc events r s sols = Inr sols \<or>
    (\<exists>sel ac. alt_body tc events r s sols = Inr (sols @ [(sel, length sel)]) \<and>
       distinct sel \<and> set sel \<subseteq> fst ` set tc \<and>
       all_covered_of tc sel {} = Inr ac \<and> card ac = length events \<and>
       set sel \<notin> (\<lambda>sol. set (fst sol)) ` set sols)"
proof (cases "Some s = r \<and> length sols > 0")
  case True
  then show ?thesis by (simp add: alt_body_def)
next
  case False
  obtain sel0 U0 where start: "seed_start tc events r s = (sel0, U0)"
    by (cases "seed_start tc events r s")
  from seed_start_props [OF start]
  have d0: "distinct sel0" and s0: "set sel0 \<subseteq> fst ` set tc" and f0: "finite U0" by auto
  from alt_loop_result [OF d0 f0 assms]
  obtain new where loop: "alt_loop tc sel0 U0 = Inr (sel0 @ new)"
    and d: "distinct (sel0 @ new)" and s1: "set new \<subseteq> fst ` set tc"
    by blast
  define sel where "sel = sel0 @ new"
  have sub: "set sel \<subseteq> fst ` set tc" using s0 s1 sel_def by simp
  from all_covered_of_total [OF sub]
  obtain ac where ac: "all_covered_of tc sel {} = Inr ac" by blast
  have body: "alt_body tc events r s sols = Inr (accept_solution events ac sel sols)"
    using False start loop ac unfolding alt_body_def sel_def by auto
  show ?thesis
    using accept_solution_cases [of events ac sel sols] body d sub ac
    unfolding sel_def [symmetric] by auto
qed

lemma explore_result:
  assumes "distinct (map fst tc)" and "distinct (map (\<lambda>sol. set (fst sol)) sols)"
  shows "\<exists>more. explore tc events r seeds sols = Inr (sols @ more) \<and>
           (\<forall>a \<in> set more. sound_solution tc events a) \<and>
           distinct (map (\<lambda>sol. set (fst sol)) (sols @ more))"
  using assms(2)
proof (induction seeds arbitrary: sols)
  case Nil
  then show ?case by simp
next
  case (Cons s seeds)
  from alt_body_cases [OF assms(1), of events r s sols]
  show ?case
  proof (elim disjE exE conjE)
    assume "alt_body tc events r s sols = Inr sols"
    then show ?thesis using Cons.IH [OF Cons.prems] by simp
  next
    fix sel ac
    assume body: "alt_body tc events r s sols = Inr (sols @ [(sel, length sel)])"
      and d: "distinct sel" and sub: "set sel \<subseteq> fst ` set tc"
      and ac: "all_covered_of tc sel {} = Inr ac" "card ac = length events"
      and new: "set sel \<notin> (\<lambda>sol. set (fst sol)) ` set sols"
    have dd: "distinct (map (\<lambda>sol. set (fst sol)) (sols @ [(sel, length sel)]))"
      using Cons.prems new by simp
    from Cons.IH [OF dd] obtain more where
      ex: "explore tc events r seeds (sols @ [(sel, length sel)]) = Inr ((sols @ [(sel, length sel)]) @ more)"
      and ok: "\<forall>a \<in> set more. sound_solution tc events a"
      and dm: "distinct (map (\<lambda>sol. set (fst sol)) ((sols @ [(sel, length sel)]) @ more))"
      by blast
    have "sound_solution tc events (sel, length sel)"
      using d sub ac by (simp add: sound_solution_def)
    then show ?thesis
      using body ex ok dm
      by (intro exI [of _ "(sel, length sel) # more"]) simp
  qed
qed

section \<open>The selector and the explorer as a whole\<close>

lemma py_take_is_take: "\<exists>n. py_take xs k = take n xs"
  unfolding py_take_def by (cases "0 \<le> k") auto

lemma greedy_unfold:
  "greedy_set_cover_with_required_team events r m ex inc =
     (case seed_required (find_team_coverage events m ex inc) r ([], set (map fst events)) of
        (sel, U) \<Rightarrow> (sel_loop (find_team_coverage events m ex inc) sel U,
                      length (sel_loop (find_team_coverage events m ex inc) sel U)))"
  unfolding greedy_set_cover_with_required_team_def Let_def by (simp split: prod.splits)

lemma seed_required_absent:
  "r \<notin> fst ` set tc \<Longrightarrow> seed_required tc (Some r) st = seed_required tc None st"
  unfolding seed_required_def
  by (auto split: prod.splits option.splits dest: map_of_Some_key)

lemma seed_required_zero:
  "seed_required tc (Some 0) st = seed_required tc None st"
  unfolding seed_required_def by (auto split: prod.splits)

lemma seed_required_None: "seed_required tc None st = st"
  unfolding seed_required_def by (auto split: prod.splits)

lemma greedy_required_absent:
  assumes "r \<notin> fst ` set (find_team_coverage events m ex inc)"
  shows "greedy_set_cover_with_required_team events (Some r) m ex inc =
         greedy_set_cover_with_required_team events None m ex inc"
  unfolding greedy_unfold seed_required_absent [OF assms] ..

lemma greedy_None:
  "fst (greedy_set_cover_with_required_team events None m ex inc) =
     sel_loop (find_team_coverage events m ex inc) [] (set (map fst events))"
  unfolding greedy_unfold seed_required_None by simp

lemma greedy_props:
  "distinct (fst (greedy_set_cover_with_required_team events r m ex inc)) \<and>
   set (fst (greedy_set_cover_with_required_team events r m ex inc))
     \<subseteq> fst ` set (find_team_coverage events m ex inc) \<and>
   snd (greedy_set_cover_with_required_team events r m ex inc) =
     length (fst (greedy_set_cover_with_required_team events r m ex inc))"
proof -
  define tc where "tc = find_team_coverage events m ex inc"
  obtain sel U where st: "seed_required tc r ([], set (map fst events)) = (sel, U)"
    by (cases "seed_required tc r ([], set (map fst events))")
  have "sel = [] \<and> U = set (map fst events) \<or>
        (\<exists>x es. map_of tc x = Some es \<and> sel = [x] \<and> U = set (map fst events) - set es)"
    using seed_required_cases [of tc r "[]" "set (map fst events)"] st by auto
  then have d: "distinct sel" and f: "finite U" and s: "set sel \<subseteq> fst ` set tc"
    using map_of_Some_key [of tc] by auto
  from sel_loop_result [OF d f, of tc] obtain new where
    "sel_loop tc sel U = sel @ new" "distinct (sel @ new)" "set new \<subseteq> fst ` set tc"
    by blast
  then show ?thesis
    unfolding greedy_unfold tc_def [symmetric] st using s by simp
qed

lemma greedy_required_first:
  assumes "r \<noteq> 0" and "r \<in> fst ` set (find_team_coverage events m ex inc)"
  shows "\<exists>rest. fst (greedy_set_cover_with_required_team events (Some r) m ex inc) = r # rest"
proof -
  define tc where "tc = find_team_coverage events m ex inc"
  obtain es where look: "map_of tc r = Some es"
    using assms(2) unfolding tc_def by (metis domD dom_map_of_conv_image_fst)
  have st: "seed_required tc (Some r) ([], set (map fst events)) = ([r], set (map fst events) - set es)"
    using assms(1) look by (simp add: seed_required_def)
  from sel_loop_result [of "[r]" "set (map fst events) - set es" tc] obtain new where
    "sel_loop tc [r] (set (map fst events) - set es) = [r] @ new"
    by auto
  then show ?thesis
    unfolding greedy_unfold tc_def [symmetric] st by simp
qed

lemma explore_from_greedy:
  "\<exists>more. explore (find_team_coverage events m ex inc) events r seeds
            [greedy_set_cover_with_required_team events r' m ex inc]
            = Inr (greedy_set_cover_with_required_team events r' m ex inc # more) \<and>
          (\<forall>a \<in> set more. sound_solution (find_team_coverage events m ex inc) events a) \<and>
          distinct (map (\<lambda>sol. set (fst sol))
                     (greedy_set_cover_with_required_team events r' m ex inc # more))"
  using explore_result [OF distinct_find_team_coverage,
      of "[greedy_set_cover_with_required_team events r' m ex inc]" events m ex inc events r seeds]
  by simp

lemma fas_unfold:
  "find_alternative_solutions events r K m ex inc =
     (case explore (find_team_coverage events m ex inc) events r
             (py_take (seed_list (find_team_coverage events m ex inc) r) K)
             [greedy_set_cover_with_required_team events r m ex inc] of
        Inl e \<Rightarrow> Inl e
      | Inr solutions \<Rightarrow> Inr (py_take solutions K))"
  unfolding find_alternative_solutions_def Let_def ..

lemma fas_result:
  "\<exists>more n. find_alternative_solutions events r K m ex inc
       = Inr (py_take (greedy_set_cover_with_required_team events r m ex inc # more) K) \<and>
     py_take (greedy_set_cover_with_required_team events r m ex inc # more) K
       = take n (greedy_set_cover_with_required_team events r m ex inc # more) \<and>
     (\<forall>a \<in> set more. sound_solution (find_team_coverage events m ex inc) events a) \<and>
     distinct (map (\<lambda>sol. set (fst sol))
                (greedy_set_cover_with_required_team events r m ex inc # more))"
proof -
  from explore_from_greedy [of events m ex inc r
      "py_take (seed_list (find_team_coverage events m ex inc) r) K" r]
  obtain more where
    ex: "explore (find_team_coverage events m ex inc) events r
           (py_take (seed_list (find_team_coverage events m ex inc) r) K)
           [greedy_set_cover_with_required_team events r m ex inc]
         = Inr (greedy_set_cover_with_required_team events r m ex inc # more)"
    and ok: "\<forall>a \<in> set more. sound_solution (find_team_coverage events m ex inc) events a"
    and d: "distinct (map (\<lambda>sol. set (fst sol))
              (greedy_set_cover_with_required_team events r m ex inc # more))"
    by blast
  obtain n where n: "py_take (greedy_set_cover_with_required_team events r m ex inc # more) K
       = take n (greedy_set_cover_with_required_team events r m ex inc # more)"
    using py_take_is_take by blast
  have "find_alternative_solutions events r K m ex inc
       = Inr (py_take (greedy_set_cover_with_required_team events r m ex inc # more) K)"
    unfolding fas_unfold ex by simp
  then show ?thesis
    using ok d n by blast
qed

lemma sound_solution_complete:
  assumes ok: "sound_solution (find_team_coverage events m ex inc) events a"
    and d: "distinct (map fst events)"
  shows "all_covered_of (find_team_coverage events m ex inc) (fst a) {} = Inr (set (map fst events))"
proof -
  obtain ac where ac: "all_covered_of (find_team_coverage events m ex inc) (fst a) {} = Inr ac"
    and c: "card ac = length events"
    using ok unfolding sound_solution_def by blast
  have "\<forall>(t, es) \<in> set (find_team_coverage events m ex inc). set es \<subseteq> fst ` set events"
    using values_find_team_coverage by blast
  then have sub: "ac \<subseteq> set (map fst events)"
    using all_covered_of_sub [OF _ _ ac, of "fst ` set events"] by simp
  have "card (set (map fst events)) = length events"
    using distinct_card [OF d] by simp
  then have "ac = set (map fst events)"
    using sub c by (intro card_subset_eq) auto
  then show ?thesis using ac by simp
qed

lemma fas_members:
  "\<exists>sols. find_alternative_solutions events r K m ex inc = Inr sols \<and>
     (\<forall>s \<in> set sols. distinct (fst s) \<and>
        set (fst s) \<subseteq> fst ` set (find_team_coverage events m ex inc) \<and>
        snd s = length (fst s))"
proof -
  define g where "g = greedy_set_cover_with_required_team events r m ex inc"
  from fas_result [of events r K m ex inc] obtain more n where
    res: "find_alternative_solutions events r K m ex inc = Inr (py_take (g # more) K)"
    and n: "py_take (g # more) K = take n (g # more)"
    and ok: "\<forall>a \<in> set more. sound_solution (find_team_coverage events m ex inc) events a"
    unfolding g_def by blast
  have "distinct (fst s) \<and> set (fst s) \<subseteq> fst ` set (find_team_coverage events m ex inc) \<and>
        snd s = length (fst s)" if "s \<in> set (take n (g # more))" for s
  proof -
    from that have "s = g \<or> s \<in> set more" using in_set_takeD by fastforce
    then show ?thesis
      using greedy_props [of events r m ex inc] ok unfolding g_def sound_solution_def by blast
  qed
  then show ?thesis using res n by simp
qed

lemma seed_list_zero: "seed_list tc (Some 0) = seed_list tc None"
  unfolding seed_list_def by simp

lemma seed_start_zero: "seed_start tc events (Some 0) s = seed_start tc events None s"
  unfolding seed_start_def seed_required_zero seed_required_None by simp

lemma alt_body_zero:
  "alt_body tc events (Some 0) s sols =
     (if s = 0 \<and> sols \<noteq> [] then Inr sols else alt_body tc events None s sols)"
  unfolding alt_body_def seed_start_zero by auto

lemma alt_body_grows:
  "alt_body tc events r s sols = Inr sols' \<Longrightarrow> \<exists>more. sols' = sols @ more"
  unfolding alt_body_def accept_solution_def
  by (auto split: if_splits prod.splits sum.splits)

lemma explore_zero:
  "sols \<noteq> [] \<Longrightarrow>
   explore tc events (Some 0) seeds sols = explore tc events None (filter (\<lambda>s. s \<noteq> 0) seeds) sols"
proof (induction seeds arbitrary: sols)
  case Nil
  then show ?case by simp
next
  case (Cons s seeds)
  show ?case
  proof (cases "s = 0")
    case True
    then show ?thesis using Cons by (simp add: alt_body_zero)
  next
    case False
    show ?thesis
    proof (cases "alt_body tc events None s sols")
      case (Inl e)
      then show ?thesis using False Cons.prems by (simp add: alt_body_zero)
    next
      case (Inr sols')
      then have "sols' \<noteq> []" using alt_body_grows Cons.prems by fastforce
      then show ?thesis using False Inr Cons.IH by (simp add: alt_body_zero)
    qed
  qed
qed


section \<open>The engine reads the raw mapping through the order and content of the index\<close>

lemma indexed_append_event:
  "indexed_events (append_event t e tc) t' =
     indexed_events tc t' + (if t' = t then {#e#} else {#})"
  unfolding indexed_events_def append_event_def map_of_map_default
  by (simp split: option.splits)

lemma indexed_add_team:
  "indexed_events (add_team m ex inc e t tc) t' =
     indexed_events tc t' +
       (if t' = t \<and> (t \<le> m \<or> t \<in> set inc) \<and> t \<notin> set ex then {#e#} else {#})"
  unfolding add_team_def by (simp add: indexed_append_event)

lemma indexed_fold_add_team:
  "indexed_events (fold (add_team m ex inc e) ts tc) t' =
     indexed_events tc t' +
       replicate_mset (length (filter (\<lambda>t. t' = t \<and> (t \<le> m \<or> t \<in> set inc) \<and> t \<notin> set ex) ts)) e"
proof (induction ts arbitrary: tc)
  case Nil
  then show ?case by simp
next
  case (Cons t ts)
  show ?case
    unfolding fold_simps Cons.IH indexed_add_team by simp
qed

lemma indexed_fold_events:
  "indexed_events (fold (\<lambda>(e, ts). fold (add_team m ex inc e) ts) evs tc) t' =
     indexed_events tc t' +
       sum_list (map (\<lambda>(e, ts). replicate_mset
          (length (filter (\<lambda>t. t' = t \<and> (t \<le> m \<or> t \<in> set inc) \<and> t \<notin> set ex) ts)) e) evs)"
proof (induction evs arbitrary: tc)
  case Nil
  then show ?case by simp
next
  case (Cons p evs)
  obtain e ts where p: "p = (e, ts)" by (cases p)
  show ?case
    unfolding p fold_simps Cons.IH by (simp add: indexed_fold_add_team)
qed

lemma indexed_find_team_coverage:
  "indexed_events (find_team_coverage events m ex inc) t' =
     sum_mset (image_mset (\<lambda>(e, ts). replicate_mset
          (length (filter (\<lambda>t. t' = t \<and> (t \<le> m \<or> t \<in> set (or_empty inc)) \<and> t \<notin> set (or_empty ex)) ts)) e)
        (mset events))"
proof -
  have "indexed_events (find_team_coverage events m ex inc) t' =
     sum_list (map (\<lambda>(e, ts). replicate_mset
          (length (filter (\<lambda>t. t' = t \<and> (t \<le> m \<or> t \<in> set (or_empty inc)) \<and> t \<notin> set (or_empty ex)) ts)) e) events)"
    unfolding find_team_coverage_def Let_def indexed_fold_events
    by (simp add: indexed_events_def)
  then show ?thesis
    by (simp only: sum_mset_sum_list [symmetric] mset_map)
qed

lemma same_content_mset:
  assumes "distinct (map fst events)" and "distinct (map fst events')" and "set events = set events'"
  shows "mset events = mset events'"
proof -
  have "distinct events" "distinct events'"
    using assms(1,2) by (simp_all add: distinct_map)
  then show ?thesis using assms(3) by (simp add: set_eq_iff_mset_eq_distinct)
qed

lemma same_index_find_team_coverage:
  assumes c: "mset events = mset events'"
    and k: "map fst (find_team_coverage events m ex inc) = map fst (find_team_coverage events' m ex inc)"
  shows "same_index (find_team_coverage events m ex inc) (find_team_coverage events' m ex inc)"
proof -
  define tc where "tc = find_team_coverage events m ex inc"
  define tc' where "tc' = find_team_coverage events' m ex inc"
  have d: "distinct (map fst tc)" and d': "distinct (map fst tc')"
    unfolding tc_def tc'_def by (rule distinct_find_team_coverage)+
  have ie: "indexed_events tc t = indexed_events tc' t" for t
    unfolding tc_def tc'_def indexed_find_team_coverage c ..
  have len: "length tc = length tc'"
    using k unfolding tc_def tc'_def by (metis length_map)
  have "fst (tc ! i) = fst (tc' ! i) \<and> mset (snd (tc ! i)) = mset (snd (tc' ! i))"
    if i: "i < length tc" for i
  proof -
    have f: "fst (tc ! i) = fst (tc' ! i)"
      using k i len unfolding tc_def tc'_def by (metis nth_map)
    have "(fst (tc ! i), snd (tc ! i)) \<in> set tc" using i by simp
    then have m1: "map_of tc (fst (tc ! i)) = Some (snd (tc ! i))"
      using d by simp
    have "(fst (tc' ! i), snd (tc' ! i)) \<in> set tc'" using i len by simp
    then have m2: "map_of tc' (fst (tc ! i)) = Some (snd (tc' ! i))"
      using d' f by simp
    show ?thesis
      using ie [of "fst (tc ! i)"] f m1 m2 unfolding indexed_events_def by simp
  qed
  then show ?thesis
    unfolding same_index_def tc_def [symmetric] tc'_def [symmetric]
    using len by (simp add: list_all2_conv_all_nth)
qed

lemma sel_step_cong:
  assumes "fst p = fst q" and "mset (snd p) = mset (snd q)"
  shows "sel_step sel U p st = sel_step sel U q st"
proof -
  obtain t es where p: "p = (t, es)" by (cases p)
  obtain t' es' where q: "q = (t', es')" by (cases q)
  obtain bt bc be where st: "st = (bt, bc, be)" by (cases st)
  have "t = t'" and "set es = set es'"
    using assms mset_eq_setD unfolding p q by auto
  then show ?thesis unfolding p q st by simp
qed

lemma sel_fold_cong:
  assumes "list_all2 (\<lambda>p q. fst p = fst q \<and> mset (snd p) = mset (snd q)) tc tc'"
  shows "fold (sel_step sel U) tc st = fold (sel_step sel U) tc' st"
  using assms
proof (induction arbitrary: st rule: list_all2_induct)
  case Nil
  then show ?case by simp
next
  case (Cons p tc q tc')
  then show ?case using sel_step_cong [of p q sel U st] by simp
qed

lemma sel_scan_cong:
  "same_index tc tc' \<Longrightarrow> sel_scan tc sel U = sel_scan tc' sel U"
  unfolding same_index_def sel_scan_def by (rule sel_fold_cong)

lemma alt_scan_cong:
  "same_index tc tc' \<Longrightarrow> alt_scan tc sel U = alt_scan tc' sel U"
  unfolding alt_scan_sel_scan by (simp add: sel_scan_cong)

lemma map_of_cong:
  assumes "list_all2 (\<lambda>p q. fst p = fst q \<and> mset (snd p) = mset (snd q)) tc tc'"
  shows "rel_option (\<lambda>es es'. mset es = mset es') (map_of tc t) (map_of tc' t)"
  using assms
proof (induction rule: list_all2_induct)
  case Nil
  then show ?case by simp
next
  case (Cons p tc q tc')
  obtain a es where p: "p = (a, es)" by (cases p)
  obtain a' es' where q: "q = (a', es')" by (cases q)
  show ?case using Cons unfolding p q by simp
qed

lemma map_of_same_index:
  assumes "same_index tc tc'"
  shows "(map_of tc t = None \<and> map_of tc' t = None) \<or>
         (\<exists>es es'. map_of tc t = Some es \<and> map_of tc' t = Some es' \<and>
                    set es = set es' \<and> length es = length es')"
proof -
  have "rel_option (\<lambda>es es'. mset es = mset es') (map_of tc t) (map_of tc' t)"
    using assms unfolding same_index_def by (rule map_of_cong)
  then show ?thesis
    by (cases "map_of tc t"; cases "map_of tc' t") (auto dest: mset_eq_setD mset_eq_length)
qed

lemma sel_loop_cong:
  assumes "same_index tc tc'"
  shows "sel_loop tc sel U = sel_loop tc' sel U"
  using assms
proof (induction tc sel U rule: sel_loop.induct)
  case (1 tc sel U)
  note scan = sel_scan_cong [OF "1.prems", of sel U]
  show ?case
  proof (cases "U = {}")
    case True
    then show ?thesis by (simp add: sel_loop.simps [of tc] sel_loop.simps [of tc'])
  next
    case False
    obtain bt bc be where s: "sel_scan tc sel U = (bt, bc, be)"
      by (cases "sel_scan tc sel U") auto
    show ?thesis
    proof (cases bt)
      case None
      then show ?thesis
        using False s scan by (simp add: sel_loop.simps [of tc sel] sel_loop.simps [of tc' sel])
    next
      case (Some b)
      have "sel_loop tc (sel @ [b]) (U - be) = sel_loop tc' (sel @ [b]) (U - be)"
      proof (rule "1.IH" [OF False _ _ _ "1.prems"])
        show "(bt, (bc, be)) = sel_scan tc sel U" using s by simp
        show "bt = Some b" by (fact Some)
        show "(bc, be) = (bc, be)" by simp
      qed
      then show ?thesis
        using False s scan Some by (simp add: sel_loop.simps [of tc sel] sel_loop.simps [of tc' sel])
    qed
  qed
qed

lemma alt_loop_cong:
  assumes "same_index tc tc'"
  shows "alt_loop tc sel U = alt_loop tc' sel U"
  using assms
proof (induction tc sel U rule: alt_loop.induct)
  case (1 tc sel U)
  note scan = alt_scan_cong [OF "1.prems", of sel U]
  show ?case
  proof (cases "U = {}")
    case True
    then show ?thesis by (simp add: alt_loop.simps [of tc] alt_loop.simps [of tc'])
  next
    case False
    obtain bt bc where s: "alt_scan tc sel U = (bt, bc)"
      by (cases "alt_scan tc sel U") auto
    show ?thesis
    proof (cases bt)
      case None
      then show ?thesis
        using False s scan by (simp add: alt_loop.simps [of tc sel] alt_loop.simps [of tc' sel])
    next
      case (Some b)
      from map_of_same_index [OF "1.prems", of b]
      show ?thesis
      proof (elim disjE conjE exE)
        assume "map_of tc b = None" "map_of tc' b = None"
        then show ?thesis
          using False s scan Some by (simp add: alt_loop.simps [of tc sel] alt_loop.simps [of tc' sel])
      next
        fix es es'
        assume m: "map_of tc b = Some es" "map_of tc' b = Some es'" and e: "set es = set es'"
        have "alt_loop tc (sel @ [b]) (U - (set es \<inter> U)) = alt_loop tc' (sel @ [b]) (U - (set es \<inter> U))"
        proof (rule "1.IH" [OF False _ _ _ "1.prems"])
          show "(bt, bc) = alt_scan tc sel U" using s by simp
          show "bt = Some b" by (fact Some)
          show "map_of tc b = Some es" by (fact m(1))
        qed
        then show ?thesis
          using False s scan Some m e
          by (simp add: alt_loop.simps [of tc sel] alt_loop.simps [of tc' sel])
      qed
    qed
  qed
qed

lemma seed_required_cong:
  assumes "same_index tc tc'"
  shows "seed_required tc r st = seed_required tc' r st"
proof (cases r)
  case None
  then show ?thesis by (simp add: seed_required_None)
next
  case (Some x)
  from map_of_same_index [OF assms, of x]
  show ?thesis unfolding seed_required_def Some
    by (auto split: prod.splits)
qed

lemma seed_start_cong:
  assumes "same_index tc tc'" and "set (map fst events) = set (map fst events')"
  shows "seed_start tc events r s = seed_start tc' events' r s"
proof -
  from map_of_same_index [OF assms(1), of s]
  show ?thesis
    unfolding seed_start_def Let_def seed_required_cong [OF assms(1)] assms(2)
    by (auto split: prod.splits)
qed

lemma all_covered_of_cong:
  assumes "same_index tc tc'"
  shows "all_covered_of tc sel acc = all_covered_of tc' sel acc"
proof (induction sel arbitrary: acc)
  case Nil
  then show ?case by simp
next
  case (Cons t sel)
  from map_of_same_index [OF assms, of t]
  show ?case using Cons.IH by auto
qed

lemma seed_filter_cong:
  assumes "list_all2 (\<lambda>p q. fst p = fst q \<and> mset (snd p) = mset (snd q)) tc tc'"
  shows "map fst (filter (\<lambda>(team, events_list). length events_list \<ge> 2) tc) =
         map fst (filter (\<lambda>(team, events_list). length events_list \<ge> 2) tc')"
  using assms
proof (induction rule: list_all2_induct)
  case Nil
  then show ?case by simp
next
  case (Cons p tc q tc')
  obtain a es where p: "p = (a, es)" by (cases p)
  obtain a' es' where q: "q = (a', es')" by (cases q)
  have "a = a'" and "length es = length es'"
    using Cons(1) mset_eq_length unfolding p q by auto
  then show ?case using Cons.IH unfolding p q by simp
qed

lemma seed_list_cong:
  assumes "same_index tc tc'"
  shows "seed_list tc r = seed_list tc' r"
proof -
  have "map fst (filter (\<lambda>(team, events_list). length events_list \<ge> 2) tc) =
        map fst (filter (\<lambda>(team, events_list). length events_list \<ge> 2) tc')"
    using assms unfolding same_index_def by (rule seed_filter_cong)
  then show ?thesis
    unfolding seed_list_def Let_def by (simp only:)
qed

lemma alt_body_cong:
  assumes "same_index tc tc'" and "set (map fst events) = set (map fst events')"
    and "length events = length events'"
  shows "alt_body tc events r s sols = alt_body tc' events' r s sols"
  unfolding alt_body_def accept_solution_def
    seed_start_cong [OF assms(1,2)] alt_loop_cong [OF assms(1)] all_covered_of_cong [OF assms(1)]
    assms(3) ..

lemma explore_cong:
  assumes "same_index tc tc'" and "set (map fst events) = set (map fst events')"
    and "length events = length events'"
  shows "explore tc events r seeds sols = explore tc' events' r seeds sols"
  by (induction seeds arbitrary: sols) (simp_all add: alt_body_cong [OF assms] split: sum.splits)

lemma greedy_cong:
  assumes "same_index (find_team_coverage events m ex inc) (find_team_coverage events' m ex inc)"
    and "set (map fst events) = set (map fst events')"
  shows "greedy_set_cover_with_required_team events r m ex inc =
         greedy_set_cover_with_required_team events' r m ex inc"
  unfolding greedy_unfold seed_required_cong [OF assms(1)] sel_loop_cong [OF assms(1)] assms(2) ..

section \<open>A required team that the guards pass over\<close>

lemma required_zero_runs:
  "greedy_set_cover_with_required_team events (Some 0) m ex inc
     = greedy_set_cover_with_required_team events None m ex inc \<and>
   seed_list tc (Some 0) = seed_list tc None \<and>
   seed_start tc events (Some 0) start_team = seed_start tc events None start_team \<and>
   find_alternative_solutions events (Some 0) K m ex inc =
     (case explore (find_team_coverage events m ex inc) events None
             (filter (\<lambda>s. s \<noteq> 0) (py_take (seed_list (find_team_coverage events m ex inc) None) K))
             [greedy_set_cover_with_required_team events None m ex inc] of
        Inl e \<Rightarrow> Inl e
      | Inr solutions \<Rightarrow> Inr (py_take solutions K)) \<and>
   (0 \<notin> set (py_take (seed_list (find_team_coverage events m ex inc) None) K) \<longrightarrow>
      find_alternative_solutions events (Some 0) K m ex inc
        = find_alternative_solutions events None K m ex inc)"
proof -
  have g: "greedy_set_cover_with_required_team events (Some 0) m ex inc
     = greedy_set_cover_with_required_team events None m ex inc"
    unfolding greedy_unfold seed_required_zero ..
  have f: "find_alternative_solutions events (Some 0) K m ex inc =
     (case explore (find_team_coverage events m ex inc) events None
             (filter (\<lambda>s. s \<noteq> 0) (py_take (seed_list (find_team_coverage events m ex inc) None) K))
             [greedy_set_cover_with_required_team events None m ex inc] of
        Inl e \<Rightarrow> Inl e
      | Inr solutions \<Rightarrow> Inr (py_take solutions K))"
    unfolding fas_unfold [of events "Some 0"] g seed_list_zero
    by (simp add: explore_zero)
  have "filter (\<lambda>s. s \<noteq> 0) (py_take (seed_list (find_team_coverage events m ex inc) None) K)
          = py_take (seed_list (find_team_coverage events m ex inc) None) K"
    if "0 \<notin> set (py_take (seed_list (find_team_coverage events m ex inc) None) K)"
    using that by (intro filter_True) auto
  then show ?thesis
    using g f seed_list_zero seed_start_zero by (simp add: fas_unfold [of events None])
qed

lemma seed_start_absent:
  "r \<notin> fst ` set tc \<Longrightarrow> seed_start tc events (Some r) s = seed_start tc events None s"
  unfolding seed_start_def
  by (cases "Some r = Some s") (simp_all add: seed_required_absent seed_required_None)

lemma alt_body_absent:
  "r \<notin> fst ` set tc \<Longrightarrow>
   alt_body tc events (Some r) s sols =
     (if s = r \<and> sols \<noteq> [] then Inr sols else alt_body tc events None s sols)"
  unfolding alt_body_def by (auto simp: seed_start_absent)

lemma explore_absent:
  assumes "r \<notin> fst ` set tc"
  shows "sols \<noteq> [] \<Longrightarrow>
   explore tc events (Some r) seeds sols = explore tc events None (filter (\<lambda>s. s \<noteq> r) seeds) sols"
proof (induction seeds arbitrary: sols)
  case Nil
  then show ?case by simp
next
  case (Cons s seeds)
  show ?case
  proof (cases "s = r")
    case True
    then show ?thesis using Cons by (simp add: alt_body_absent [OF assms])
  next
    case False
    show ?thesis
    proof (cases "alt_body tc events None s sols")
      case (Inl e)
      then show ?thesis using False Cons.prems by (simp add: alt_body_absent [OF assms])
    next
      case (Inr sols')
      then have "sols' \<noteq> []" using alt_body_grows Cons.prems by fastforce
      then show ?thesis using False Inr Cons.IH by (simp add: alt_body_absent [OF assms])
    qed
  qed
qed

lemma seed_list_keys: "set (seed_list tc None) \<subseteq> fst ` set tc"
  unfolding seed_list_def by auto

lemma seed_list_absent:
  assumes "r \<noteq> 0" and "r \<notin> fst ` set tc"
  shows "seed_list tc (Some r) = r # seed_list tc None"
proof -
  have "r \<notin> set (seed_list tc None)" using assms(2) seed_list_keys by blast
  then show ?thesis using assms(1) unfolding seed_list_def Let_def by simp
qed

lemma filter_take_Cons:
  assumes "x \<notin> set xs"
  shows "filter (\<lambda>s. s \<noteq> x) (take n (x # xs)) = take (n - 1) xs"
proof (cases n)
  case 0
  then show ?thesis by simp
next
  case (Suc j)
  have "x \<notin> set (take j xs)" using assms in_set_takeD by fastforce
  then have "filter (\<lambda>s. s \<noteq> x) (take j xs) = take j xs"
    by (intro filter_True) auto
  then show ?thesis using Suc by simp
qed

lemma filter_py_take_Cons:
  assumes "x \<notin> set xs"
  shows "filter (\<lambda>s. s \<noteq> x) (py_take (x # xs) K) =
         take ((if 0 \<le> K then nat K else nat (int (length xs) + 1 + K)) - 1) xs"
  unfolding py_take_def using filter_take_Cons [OF assms]
  by (simp add: add.commute add.left_commute)

lemma fas_absent:
  assumes "r \<noteq> 0" and "r \<notin> fst ` set (find_team_coverage events m ex inc)"
  shows "find_alternative_solutions events (Some r) K m ex inc =
     (case explore (find_team_coverage events m ex inc) events None
             (take ((if 0 \<le> K then nat K
                     else nat (int (length (seed_list (find_team_coverage events m ex inc) None)) + 1 + K)) - 1)
                (seed_list (find_team_coverage events m ex inc) None))
             [greedy_set_cover_with_required_team events None m ex inc] of
        Inl e \<Rightarrow> Inl e
      | Inr solutions \<Rightarrow> Inr (py_take solutions K))"
proof -
  have "r \<notin> set (seed_list (find_team_coverage events m ex inc) None)"
    using assms(2) seed_list_keys by blast
  then show ?thesis
    unfolding fas_unfold [of events "Some r"] greedy_required_absent [OF assms(2)]
      seed_list_absent [OF assms]
    by (simp add: explore_absent [OF assms(2)] filter_py_take_Cons)
qed

lemma fresh_team:
  "\<exists>r'::int. r' \<noteq> 0 \<and> r' \<notin> fst ` set tc \<and> r' \<notin> set xs"
proof -
  have "finite (insert 0 (fst ` set tc \<union> set xs))" by simp
  then obtain r' where "r' \<notin> insert 0 (fst ` set tc \<union> set xs)"
    using ex_new_if_finite [OF infinite_UNIV_int] by blast
  then show ?thesis by auto
qed

section \<open>Passes of the two greedy loops\<close>





section \<open>Claims\<close>

text \<open>
  Claim C4. For every raw mapping, threshold, inclusion list and exclusion list, a team is
  a key of the index built by \<^verbatim>\<open>find_team_coverage\<close> exactly when it occurs in the team
  list of some event, is not excluded, and is at most the threshold or is included. So a
  team that is both excluded and included is never a key: exclusion wins over inclusion,
  which wins over the threshold.
\<close>

theorem find_team_coverage_key_iff:
  "(t \<in> fst ` set (find_team_coverage events max_team_number excluded_teams included_teams)
      \<longleftrightarrow>
        (\<exists>(event_name, teams) \<in> set events. t \<in> set teams) \<and>
        t \<notin> set (or_empty excluded_teams) \<and>
        (t \<le> max_team_number \<or> t \<in> set (or_empty included_teams)))
   \<and> (t \<in> set (or_empty excluded_teams) \<and> t \<in> set (or_empty included_teams) \<longrightarrow>
        t \<notin> fst ` set (find_team_coverage events max_team_number excluded_teams included_teams))"
  unfolding keys_find_team_coverage by auto

theorem find_team_coverage_key_iff_witness:
  "20 \<in> fst ` set (find_team_coverage [(''A'', [1, 20]), (''B'', [7, 30])] 10 (Some [1]) (Some [1, 20]))
   \<and> 1 \<notin> fst ` set (find_team_coverage [(''A'', [1, 20]), (''B'', [7, 30])] 10 (Some [1]) (Some [1, 20]))
   \<and> 30 \<notin> fst ` set (find_team_coverage [(''A'', [1, 20]), (''B'', [7, 30])] 10 (Some [1]) (Some [1, 20]))
   \<and> find_team_coverage [(''A'', [1, 20]), (''B'', [7, 30])] 10 (Some [1]) (Some [1, 20])
        = [(20, [''A'']), (7, [''B''])]"
  using find_team_coverage_key_iff [of 20 "[(''A'', [1, 20]), (''B'', [7, 30])]" 10 "Some [1]" "Some [1, 20]"]
    find_team_coverage_key_iff [of 1 "[(''A'', [1, 20]), (''B'', [7, 30])]" 10 "Some [1]" "Some [1, 20]"]
    find_team_coverage_key_iff [of 30 "[(''A'', [1, 20]), (''B'', [7, 30])]" 10 "Some [1]" "Some [1, 20]"]
  by (simp add: find_team_coverage_def add_team_def append_event_def)

text \<open>
  Claim C1. For every raw mapping (a dictionary, so without a repeated key), eligibility
  configuration, required team and bound \<open>K\<close>, the explorer returns a list in which every
  solution after the first is complete: the union of the indexed events of its teams, as
  lines 235-237 compute it, is the set of all events. The team sets of the returned
  solutions are pairwise different, so no two returned solutions have the same underlying
  set of teams.
\<close>

theorem alternatives_complete_and_distinct:
  assumes "distinct (map fst events)"
  shows "\<exists>sols. find_alternative_solutions events required_team K m ex inc = Inr sols \<and>
           (\<forall>i. 0 < i \<and> i < length sols \<longrightarrow>
                all_covered_of (find_team_coverage events m ex inc) (fst (sols ! i)) {}
                  = Inr (set (map fst events))) \<and>
           distinct (map (\<lambda>sol. set (fst sol)) sols)"
proof -
  define g where "g = greedy_set_cover_with_required_team events required_team m ex inc"
  from fas_result [of events required_team K m ex inc] obtain more n where
    res: "find_alternative_solutions events required_team K m ex inc = Inr (py_take (g # more) K)"
    and n: "py_take (g # more) K = take n (g # more)"
    and ok: "\<forall>a \<in> set more. sound_solution (find_team_coverage events m ex inc) events a"
    and d: "distinct (map (\<lambda>sol. set (fst sol)) (g # more))"
    unfolding g_def by blast
  have compl: "all_covered_of (find_team_coverage events m ex inc) (fst (take n (g # more) ! i)) {}
                 = Inr (set (map fst events))"
    if i: "0 < i" "i < length (take n (g # more))" for i
  proof -
    have "take n (g # more) ! i = (g # more) ! i" using i by simp
    also have "\<dots> = more ! (i - 1)" using i by (simp add: nth_Cons')
    finally have "take n (g # more) ! i = more ! (i - 1)" .
    moreover have "i - 1 < length more" using i by auto
    ultimately have "take n (g # more) ! i \<in> set more" by (metis nth_mem)
    then show ?thesis using ok sound_solution_complete [OF _ assms] by blast
  qed
  have "distinct (map (\<lambda>sol. set (fst sol)) (take n (g # more)))"
    using d distinct_take [of "map (\<lambda>sol. set (fst sol)) (g # more)" n]
    by (simp only: take_map)
  then show ?thesis
    using res n compl by auto
qed

theorem alternatives_complete_and_distinct_witness:
  "distinct (map fst [(''A'', [1, 2]), (''B'', [1, 2 :: int])]) \<and>
   (\<exists>sols. find_alternative_solutions [(''A'', [1, 2]), (''B'', [1, 2])] None 5 10 None None = Inr sols \<and>
      (\<forall>i. 0 < i \<and> i < length sols \<longrightarrow>
         all_covered_of (find_team_coverage [(''A'', [1, 2]), (''B'', [1, 2])] 10 None None)
            (fst (sols ! i)) {} = Inr (set (map fst [(''A'', [1, 2]), (''B'', [1, 2 :: int])]))) \<and>
      distinct (map (\<lambda>sol. set (fst sol)) sols)) \<and>
   find_alternative_solutions [(''A'', [1, 2]), (''B'', [1, 2])] None 5 10 None None
     = Inr [([1], 1), ([2], 1)]"
proof -
  have h: "distinct (map fst [(''A'', [1, 2]), (''B'', [1, 2 :: int])])" by simp
  have v: "find_alternative_solutions [(''A'', [1, 2]), (''B'', [1, 2])] None 5 10 None None
     = Inr [([1], 1), ([2], 1)]" by code_simp
  show ?thesis
    using h v alternatives_complete_and_distinct [OF h, of None 5 10 None None] by blast
qed

text \<open>
  Claim C3, evaluated where it fails. Team \<open>0\<close> is eligible and a key of the index, and it is
  passed as the required team; the guard \<^verbatim>\<open>if required_team and ...\<close> of line 143 is false for
  \<open>0\<close>, so the selector does not seed on it and returns \<open>[1]\<close>: team \<open>0\<close> is not at position
  \<open>0\<close>. For a required team other than \<open>0\<close> that is a key of the index the selector does
  put it first (\<open>greedy_required_first\<close>).
\<close>

theorem required_zero_not_first:
  "0 \<in> fst ` set (find_team_coverage [(''A'', [1, 0]), (''B'', [1])] 12000 None None) \<and>
   greedy_set_cover_with_required_team [(''A'', [1, 0]), (''B'', [1])] (Some 0) 12000 None None
     = ([1], 1)"
  by code_simp

text \<open>
  Claim C7, as the code has it. For every input and every bound \<open>K \<ge> 0\<close> the explorer returns
  at most \<open>K\<close> solutions, and for every \<open>K \<ge> 1\<close> the first of them is the solution of the
  required-first greedy selector, whether or not it is complete.
\<close>

theorem explorer_bound_and_first:
  "(0 \<le> K \<longrightarrow> (\<exists>sols. find_alternative_solutions events required_team K m ex inc = Inr sols \<and>
                     int (length sols) \<le> K)) \<and>
   (1 \<le> K \<longrightarrow> (\<exists>rest. find_alternative_solutions events required_team K m ex inc
                     = Inr (greedy_set_cover_with_required_team events required_team m ex inc # rest)))"
proof -
  define g where "g = greedy_set_cover_with_required_team events required_team m ex inc"
  from fas_result [of events required_team K m ex inc] obtain more where
    res: "find_alternative_solutions events required_team K m ex inc = Inr (py_take (g # more) K)"
    unfolding g_def by blast
  have "int (length (py_take (g # more) K)) \<le> K" if "0 \<le> K"
    using that unfolding py_take_def by simp
  moreover have "py_take (g # more) K = g # take (nat K - 1) more" if "1 \<le> K"
  proof -
    have "0 < nat K" using that by simp
    then obtain j where "nat K = Suc j" by (cases "nat K") auto
    then show ?thesis using that unfolding py_take_def by simp
  qed
  ultimately show ?thesis
    using res unfolding g_def by auto
qed

theorem explorer_bound_and_first_witness:
  "(0::int) \<le> 1 \<and> (1::int) \<le> 1 \<and>
   (\<exists>sols. find_alternative_solutions [(''A'', [1, 2]), (''B'', [1, 2])] None 1 10 None None = Inr sols \<and>
       int (length sols) \<le> 1) \<and>
   (\<exists>rest. find_alternative_solutions [(''A'', [1, 2]), (''B'', [1, 2])] None 1 10 None None
       = Inr (greedy_set_cover_with_required_team [(''A'', [1, 2]), (''B'', [1, 2])] None 10 None None # rest)) \<and>
   find_alternative_solutions [(''A'', [1, 2]), (''B'', [1, 2])] None 1 10 None None = Inr [([1], 1)]"
proof -
  have v: "find_alternative_solutions [(''A'', [1, 2]), (''B'', [1, 2])] None 1 10 None None = Inr [([1], 1)]"
    by code_simp
  show ?thesis
    using v explorer_bound_and_first [of 1 "[(''A'', [1, 2]), (''B'', [1, 2])]" None 10 None None]
    by simp
qed

text \<open>
  Claim C7 fails as stated for \<open>K = 0\<close>: the slice \<^verbatim>\<open>solutions[:0]\<close> of line 245 is empty, so
  the returned list has no first element, although the selector's solution is
  \<open>[1, 2, 3]\<close>.
\<close>

theorem explorer_bound_zero_counterexample:
  "find_alternative_solutions [(''A'', [1]), (''B'', [1, 2]), (''C'', [2]), (''D'', [3])] (Some 1) 0 10 None None
     = Inr [] \<and>
   greedy_set_cover_with_required_team [(''A'', [1]), (''B'', [1, 2]), (''C'', [2]), (''D'', [3])] (Some 1) 10 None None
     = ([1, 2, 3], 3)"
  by code_simp

text \<open>
  Claim C8. When the required team is not a key of the index, the selector (a total
  function: none of its statements can raise) skips the seeding step: it returns what it
  returns with no required team, the required team is not in the returned sequence, and
  that sequence is the plain greedy cover started from nothing over all events.
\<close>

theorem selector_required_absent:
  assumes "r \<notin> fst ` set (find_team_coverage events m ex inc)"
  shows "greedy_set_cover_with_required_team events (Some r) m ex inc
           = greedy_set_cover_with_required_team events None m ex inc \<and>
         r \<notin> set (fst (greedy_set_cover_with_required_team events (Some r) m ex inc)) \<and>
         fst (greedy_set_cover_with_required_team events (Some r) m ex inc)
           = sel_loop (find_team_coverage events m ex inc) [] (set (map fst events))"
  using greedy_required_absent [OF assms] greedy_None [of events m ex inc]
    greedy_props [of events "Some r" m ex inc] assms by auto

theorem selector_required_absent_witness:
  "5 \<notin> fst ` set (find_team_coverage [(''A'', [1]), (''B'', [1, 2]), (''C'', [2]), (''D'', [3])] 10 None None) \<and>
   greedy_set_cover_with_required_team [(''A'', [1]), (''B'', [1, 2]), (''C'', [2]), (''D'', [3])] (Some 5) 10 None None
     = greedy_set_cover_with_required_team [(''A'', [1]), (''B'', [1, 2]), (''C'', [2]), (''D'', [3])] None 10 None None \<and>
   5 \<notin> set (fst (greedy_set_cover_with_required_team [(''A'', [1]), (''B'', [1, 2]), (''C'', [2]), (''D'', [3])] (Some 5) 10 None None)) \<and>
   greedy_set_cover_with_required_team [(''A'', [1]), (''B'', [1, 2]), (''C'', [2]), (''D'', [3])] (Some 5) 10 None None
     = ([1, 2, 3], 3)"
proof -
  have h: "5 \<notin> fst ` set (find_team_coverage [(''A'', [1]), (''B'', [1, 2]), (''C'', [2]), (''D'', [3])] 10 None None)"
    by code_simp
  have v: "greedy_set_cover_with_required_team [(''A'', [1]), (''B'', [1, 2]), (''C'', [2]), (''D'', [3])] (Some 5) 10 None None
     = ([1, 2, 3], 3)" by code_simp
  show ?thesis
    using h v selector_required_absent [OF h] by blast
qed

text \<open>
  Claim C2, as the code has it. In every round of the selector's loop and of the
  explorer's reseeded loop the scan chooses, among the index entries whose team is not yet
  selected, one whose events meet the uncovered set in the largest number of events, and
  that number is positive. Among several such entries it chooses the one that comes first
  in the iteration order of the index (the comparison of lines 160 and 223 is strict), so
  every earlier unselected entry has a strictly smaller marginal coverage. The two scans
  choose the same team.
\<close>

theorem scans_choose_first_largest:
  "(sel_scan tc sel U = (Some b, bc, be) \<longrightarrow>
      (\<exists>pre es post. tc = pre @ (b, es) # post \<and> b \<notin> set sel \<and>
         bc = card (set es \<inter> U) \<and> be = set es \<inter> U \<and> 0 < bc \<and>
         (\<forall>(t, es') \<in> set pre. t \<in> set sel \<or> card (set es' \<inter> U) < bc) \<and>
         (\<forall>(t, es') \<in> set post. t \<in> set sel \<or> card (set es' \<inter> U) \<le> bc))) \<and>
   (alt_scan tc sel U = (Some b, bc) \<longrightarrow>
      (\<exists>pre es post. tc = pre @ (b, es) # post \<and> b \<notin> set sel \<and>
         bc = card (set es \<inter> U) \<and> 0 < bc \<and>
         (\<forall>(t, es') \<in> set pre. t \<in> set sel \<or> card (set es' \<inter> U) < bc) \<and>
         (\<forall>(t, es') \<in> set post. t \<in> set sel \<or> card (set es' \<inter> U) \<le> bc))) \<and>
   alt_scan tc sel U = (fst (sel_scan tc sel U), fst (snd (sel_scan tc sel U)))"
proof (intro conjI impI)
  assume "sel_scan tc sel U = (Some b, bc, be)"
  then show "\<exists>pre es post. tc = pre @ (b, es) # post \<and> b \<notin> set sel \<and>
         bc = card (set es \<inter> U) \<and> be = set es \<inter> U \<and> 0 < bc \<and>
         (\<forall>(t, es') \<in> set pre. t \<in> set sel \<or> card (set es' \<inter> U) < bc) \<and>
         (\<forall>(t, es') \<in> set post. t \<in> set sel \<or> card (set es' \<inter> U) \<le> bc)"
    by (rule sel_scan_Some)
next
  assume "alt_scan tc sel U = (Some b, bc)"
  then show "\<exists>pre es post. tc = pre @ (b, es) # post \<and> b \<notin> set sel \<and>
         bc = card (set es \<inter> U) \<and> 0 < bc \<and>
         (\<forall>(t, es') \<in> set pre. t \<in> set sel \<or> card (set es' \<inter> U) < bc) \<and>
         (\<forall>(t, es') \<in> set post. t \<in> set sel \<or> card (set es' \<inter> U) \<le> bc)"
    by (rule alt_scan_Some)
next
  show "alt_scan tc sel U = (fst (sel_scan tc sel U), fst (snd (sel_scan tc sel U)))"
    unfolding alt_scan_sel_scan by (simp split: prod.splits)
qed

theorem scans_choose_first_largest_witness:
  "sel_scan [(2, [''A'']), (1, [''A'', ''B'']), (3, [''B'', ''A''])] [] {''A'', ''B''}
     = (Some 1, 2, {''A'', ''B''}) \<and>
   alt_scan [(2, [''A'']), (1, [''A'', ''B'']), (3, [''B'', ''A''])] [] {''A'', ''B''} = (Some 1, 2) \<and>
   (\<exists>pre es post. [(2, [''A'']), (1, [''A'', ''B'']), (3, [''B'', ''A''])] = pre @ (1, es) # post \<and>
      1 \<notin> set ([] :: int list) \<and> (2::nat) = card (set es \<inter> {''A'', ''B''}) \<and>
      {''A'', ''B''} = set es \<inter> {''A'', ''B''} \<and> 0 < (2::nat) \<and>
      (\<forall>(t, es') \<in> set pre. t \<in> set ([] :: int list) \<or> card (set es' \<inter> {''A'', ''B''}) < 2) \<and>
      (\<forall>(t, es') \<in> set post. t \<in> set ([] :: int list) \<or> card (set es' \<inter> {''A'', ''B''}) \<le> 2))"
proof -
  have s: "sel_scan [(2, [''A'']), (1, [''A'', ''B'']), (3, [''B'', ''A''])] [] {''A'', ''B''}
     = (Some 1, 2, {''A'', ''B''})" by code_simp
  have a: "alt_scan [(2, [''A'']), (1, [''A'', ''B'']), (3, [''B'', ''A''])] [] {''A'', ''B''} = (Some 1, 2)"
    by code_simp
  note t = scans_choose_first_largest [of "[(2, [''A'']), (1, [''A'', ''B'']), (3, [''B'', ''A''])]"
      "[]" "{''A'', ''B''}" 1 2 "{''A'', ''B''}"]
  show ?thesis
    using s a t by blast
qed

text \<open>
  Claim C2 fails as stated: ties are not broken by the smallest identifier. For the raw
  mapping \<^verbatim>\<open>{'A': [2, 1]}\<close> the index lists team \<open>2\<close> before team \<open>1\<close>; both cover the one
  uncovered event, team \<open>1\<close> is unselected and smaller, and both scans choose team \<open>2\<close>.
\<close>

theorem tie_break_counterexample:
  "find_team_coverage [(''A'', [2, 1])] 12000 None None = [(2, [''A'']), (1, [''A''])] \<and>
   sel_scan [(2, [''A'']), (1, [''A''])] [] {''A''} = (Some 2, 1, {''A''}) \<and>
   alt_scan [(2, [''A'']), (1, [''A''])] [] {''A''} = (Some 2, 1) \<and>
   card (set [''A''] \<inter> {''A''}) = 1 \<and> (1::int) < 2 \<and> 1 \<notin> set ([] :: int list) \<and>
   greedy_set_cover_with_required_team [(''A'', [2, 1])] None 12000 None None = ([2], 1)"
  by code_simp

text \<open>
  Claim C5, as the code has it. When the required team is in the exclusion list, the
  engine does not show the conflict in what it returns. The excluded team is not a key of
  the index, so the selector returns the solution it returns with no required team, and
  neither that solution nor any solution returned by the explorer contains the excluded
  team. Both engine functions return exactly what they return for the same mapping,
  threshold, lists and bound with some required team, or none, that is not in the
  exclusion list; so nothing in the returned data tells the conflict apart from a
  configuration without it.
\<close>

theorem excluded_required_not_surfaced:
  assumes "r \<in> set (or_empty excluded_teams)"
  shows "greedy_set_cover_with_required_team events (Some r) m excluded_teams inc
           = greedy_set_cover_with_required_team events None m excluded_teams inc \<and>
         r \<notin> set (fst (greedy_set_cover_with_required_team events (Some r) m excluded_teams inc)) \<and>
         (\<exists>sols. find_alternative_solutions events (Some r) K m excluded_teams inc = Inr sols \<and>
            (\<forall>s \<in> set sols. r \<notin> set (fst s))) \<and>
         (\<exists>r'. r' \<notin> Some ` set (or_empty excluded_teams) \<and>
            greedy_set_cover_with_required_team events r' m excluded_teams inc
              = greedy_set_cover_with_required_team events (Some r) m excluded_teams inc \<and>
            find_alternative_solutions events r' K m excluded_teams inc
              = find_alternative_solutions events (Some r) K m excluded_teams inc)"
proof -
  define tc where "tc = find_team_coverage events m excluded_teams inc"
  have absent: "r \<notin> fst ` set tc"
    using assms unfolding tc_def keys_find_team_coverage by simp
  have g: "greedy_set_cover_with_required_team events (Some r) m excluded_teams inc
           = greedy_set_cover_with_required_team events None m excluded_teams inc"
    using greedy_required_absent absent unfolding tc_def by blast
  have n1: "r \<notin> set (fst (greedy_set_cover_with_required_team events (Some r) m excluded_teams inc))"
    using greedy_props [of events "Some r" m excluded_teams inc] absent unfolding tc_def by auto
  have n2: "\<exists>sols. find_alternative_solutions events (Some r) K m excluded_teams inc = Inr sols \<and>
            (\<forall>s \<in> set sols. r \<notin> set (fst s))"
    using fas_members [of events "Some r" K m excluded_teams inc] absent unfolding tc_def by blast
  have "\<exists>r'. r' \<notin> Some ` set (or_empty excluded_teams) \<and>
            greedy_set_cover_with_required_team events r' m excluded_teams inc
              = greedy_set_cover_with_required_team events (Some r) m excluded_teams inc \<and>
            find_alternative_solutions events r' K m excluded_teams inc
              = find_alternative_solutions events (Some r) K m excluded_teams inc"
  proof (cases "r = 0")
    case True
    have "0 \<notin> set (py_take (seed_list tc None) K)"
    proof
      assume "0 \<in> set (py_take (seed_list tc None) K)"
      moreover obtain n where "py_take (seed_list tc None) K = take n (seed_list tc None)"
        using py_take_is_take by blast
      ultimately have "0 \<in> set (seed_list tc None)" using in_set_takeD by fastforce
      then show False using seed_list_keys absent True by blast
    qed
    moreover have "0 \<notin> set (py_take (seed_list tc None) K) \<longrightarrow>
        find_alternative_solutions events (Some 0) K m excluded_teams inc
          = find_alternative_solutions events None K m excluded_teams inc"
      using required_zero_runs [of events m excluded_teams inc tc 0 K]
      unfolding tc_def by blast
    ultimately have "find_alternative_solutions events None K m excluded_teams inc
              = find_alternative_solutions events (Some r) K m excluded_teams inc"
      using True by simp
    then show ?thesis using g by (intro exI [of _ None]) auto
  next
    case False
    obtain r' where r': "r' \<noteq> 0" "r' \<notin> fst ` set tc" "r' \<notin> set (or_empty excluded_teams)"
      using fresh_team by blast
    have "find_alternative_solutions events (Some r') K m excluded_teams inc
              = find_alternative_solutions events (Some r) K m excluded_teams inc"
      using fas_absent [OF False absent [unfolded tc_def]] fas_absent [OF r'(1) r'(2) [unfolded tc_def]]
      by simp
    moreover have "greedy_set_cover_with_required_team events (Some r') m excluded_teams inc
              = greedy_set_cover_with_required_team events (Some r) m excluded_teams inc"
      using g greedy_required_absent [OF r'(2) [unfolded tc_def]] by simp
    ultimately show ?thesis using r'(3) by (intro exI [of _ "Some r'"]) auto
  qed
  then show ?thesis using g n1 n2 by blast
qed

theorem excluded_required_not_surfaced_witness:
  "(5::int) \<in> set (or_empty (Some [5])) \<and>
   greedy_set_cover_with_required_team [(''A'', [1, 2, 5]), (''B'', [1, 2])] (Some 5) 10 (Some [5]) None
     = greedy_set_cover_with_required_team [(''A'', [1, 2, 5]), (''B'', [1, 2])] None 10 (Some [5]) None \<and>
   5 \<notin> set (fst (greedy_set_cover_with_required_team [(''A'', [1, 2, 5]), (''B'', [1, 2])] (Some 5) 10 (Some [5]) None)) \<and>
   (\<exists>sols. find_alternative_solutions [(''A'', [1, 2, 5]), (''B'', [1, 2])] (Some 5) 2 10 (Some [5]) None = Inr sols \<and>
      (\<forall>s \<in> set sols. 5 \<notin> set (fst s))) \<and>
   (\<exists>r'. r' \<notin> Some ` set (or_empty (Some [5])) \<and>
      greedy_set_cover_with_required_team [(''A'', [1, 2, 5]), (''B'', [1, 2])] r' 10 (Some [5]) None
        = greedy_set_cover_with_required_team [(''A'', [1, 2, 5]), (''B'', [1, 2])] (Some 5) 10 (Some [5]) None \<and>
      find_alternative_solutions [(''A'', [1, 2, 5]), (''B'', [1, 2])] r' 2 10 (Some [5]) None
        = find_alternative_solutions [(''A'', [1, 2, 5]), (''B'', [1, 2])] (Some 5) 2 10 (Some [5]) None) \<and>
   find_alternative_solutions [(''A'', [1, 2, 5]), (''B'', [1, 2])] (Some 5) 2 10 (Some [5]) None
     = Inr [([1], 1)] \<and>
   find_alternative_solutions [(''A'', [1, 2, 5]), (''B'', [1, 2])] (Some 7) 2 10 (Some [5]) None
     = Inr [([1], 1)] \<and>
   find_alternative_solutions [(''A'', [1, 2, 5]), (''B'', [1, 2])] None 2 10 (Some [5]) None
     = Inr [([1], 1), ([2], 1)]"
proof -
  have h: "(5::int) \<in> set (or_empty (Some [5]))" by simp
  have v1: "find_alternative_solutions [(''A'', [1, 2, 5]), (''B'', [1, 2])] (Some 5) 2 10 (Some [5]) None
     = Inr [([1], 1)]" by code_simp
  have v2: "find_alternative_solutions [(''A'', [1, 2, 5]), (''B'', [1, 2])] (Some 7) 2 10 (Some [5]) None
     = Inr [([1], 1)]" by code_simp
  have v3: "find_alternative_solutions [(''A'', [1, 2, 5]), (''B'', [1, 2])] None 2 10 (Some [5]) None
     = Inr [([1], 1), ([2], 1)]" by code_simp
  note t = excluded_required_not_surfaced [OF h, of "[(''A'', [1, 2, 5]), (''B'', [1, 2])]" 10 None 2]
  show ?thesis
    using h v1 v2 v3 t by blast
qed

text \<open>
  Claim C5 fails as stated: the returned data do not show the conflict. With team \<open>1\<close>
  required, excluded and included, both engine functions return exactly what they return
  for the same mapping with no required team, a complete cover \<open>[2]\<close>.
\<close>

theorem excluded_required_silent_counterexample:
  "find_alternative_solutions [(''A'', [1, 2]), (''B'', [2])] (Some 1) 5 10 (Some [1]) (Some [1])
     = Inr [([2], 1)] \<and>
   find_alternative_solutions [(''A'', [1, 2]), (''B'', [2])] None 5 10 (Some [1]) (Some [1])
     = Inr [([2], 1)] \<and>
   greedy_set_cover_with_required_team [(''A'', [1, 2]), (''B'', [2])] (Some 1) 10 (Some [1]) (Some [1])
     = ([2], 1) \<and>
   greedy_set_cover_with_required_team [(''A'', [1, 2]), (''B'', [2])] None 10 (Some [1]) (Some [1])
     = ([2], 1)"
  by code_simp

text \<open>
  Claim C9, evaluated where it fails. Team \<open>0\<close> covers two events, so it is a seed. With no
  required team the explorer searches from that seed and finds the solution \<open>[0]\<close>. With
  the required team \<open>0\<close> the guards of lines 143, 189 and 204 treat \<open>0\<close> as no required team,
  but the test \<^verbatim>\<open>start_team == required_team\<close> of line 197 is an equality and skips the
  seed \<open>0\<close>, so the solution \<open>[0]\<close> is lost: the two runs differ.
\<close>

theorem required_zero_skips_seed:
  "find_alternative_solutions [(''A'', [1, 0]), (''B'', [1, 0])] (Some 0) 5 10 None None
     = Inr [([1], 1)] \<and>
   find_alternative_solutions [(''A'', [1, 0]), (''B'', [1, 0])] None 5 10 None None
     = Inr [([1], 1), ([0], 1)]"
  by code_simp




text \<open>
  Claim C6, as the code has it. The engine is a function of its inputs, the raw mapping
  taken with its iteration order. Two raw mappings (dictionaries) with the same
  key-to-value content give the same solution of the selector and the same list of the
  explorer whenever they also give the index the same order of teams, which is the order
  in which the eligible teams first appear when the mapping is scanned. The order of the
  events listed under a team does not matter.
\<close>

theorem same_content_same_index_order:
  assumes "distinct (map fst events)" and "distinct (map fst events')"
    and "set events = set events'"
    and "map fst (find_team_coverage events m ex inc) = map fst (find_team_coverage events' m ex inc)"
  shows "find_alternative_solutions events r K m ex inc
           = find_alternative_solutions events' r K m ex inc \<and>
         greedy_set_cover_with_required_team events r m ex inc
           = greedy_set_cover_with_required_team events' r m ex inc"
proof -
  have c: "mset events = mset events'" by (rule same_content_mset [OF assms(1-3)])
  have si: "same_index (find_team_coverage events m ex inc) (find_team_coverage events' m ex inc)"
    by (rule same_index_find_team_coverage [OF c assms(4)])
  have keys: "set (map fst events) = set (map fst events')" using assms(3) by simp
  have len: "length events = length events'" using c by (rule mset_eq_length)
  have g: "greedy_set_cover_with_required_team events r m ex inc
           = greedy_set_cover_with_required_team events' r m ex inc"
    by (rule greedy_cong [OF si keys])
  show ?thesis
    unfolding fas_unfold g seed_list_cong [OF si] explore_cong [OF si keys len] by simp
qed

theorem same_content_same_index_order_witness:
  "distinct (map fst [(''C'', [1 :: int]), (''A'', [1]), (''B'', [2])]) \<and>
   distinct (map fst [(''A'', [1 :: int]), (''B'', [2]), (''C'', [1])]) \<and>
   set [(''C'', [1 :: int]), (''A'', [1]), (''B'', [2])] = set [(''A'', [1]), (''B'', [2]), (''C'', [1])] \<and>
   map fst (find_team_coverage [(''C'', [1]), (''A'', [1]), (''B'', [2])] 10 None None)
     = map fst (find_team_coverage [(''A'', [1]), (''B'', [2]), (''C'', [1])] 10 None None) \<and>
   find_team_coverage [(''C'', [1]), (''A'', [1]), (''B'', [2])] 10 None None
     \<noteq> find_team_coverage [(''A'', [1]), (''B'', [2]), (''C'', [1])] 10 None None \<and>
   find_alternative_solutions [(''C'', [1]), (''A'', [1]), (''B'', [2])] (Some 1) 5 10 None None
     = find_alternative_solutions [(''A'', [1]), (''B'', [2]), (''C'', [1])] (Some 1) 5 10 None None \<and>
   find_alternative_solutions [(''C'', [1]), (''A'', [1]), (''B'', [2])] (Some 1) 5 10 None None
     = Inr [([1, 2], 2)]"
proof -
  have h1: "distinct (map fst [(''C'', [1 :: int]), (''A'', [1]), (''B'', [2])])" by simp
  have h2: "distinct (map fst [(''A'', [1 :: int]), (''B'', [2]), (''C'', [1])])" by simp
  have h3: "set [(''C'', [1 :: int]), (''A'', [1]), (''B'', [2])] = set [(''A'', [1]), (''B'', [2]), (''C'', [1])]"
    by auto
  have h4: "map fst (find_team_coverage [(''C'', [1]), (''A'', [1]), (''B'', [2])] 10 None None)
     = map fst (find_team_coverage [(''A'', [1]), (''B'', [2]), (''C'', [1])] 10 None None)"
    by code_simp
  have v1: "find_team_coverage [(''C'', [1]), (''A'', [1]), (''B'', [2])] 10 None None
     \<noteq> find_team_coverage [(''A'', [1]), (''B'', [2]), (''C'', [1])] 10 None None"
    by code_simp
  have v2: "find_alternative_solutions [(''C'', [1]), (''A'', [1]), (''B'', [2])] (Some 1) 5 10 None None
     = Inr [([1, 2], 2)]"
    by code_simp
  note t = same_content_same_index_order [OF h1 h2 h3 h4, of "Some 1" 5]
  show ?thesis
    using h1 h2 h3 h4 v1 v2 t by blast
qed

text \<open>
  Claim C6 fails as stated: the two raw mappings below have the same key-to-value content
  and differ in insertion order only, and the explorer returns \<open>[2, 1]\<close> for one and
  \<open>[1, 2]\<close> for the other.
\<close>

theorem iteration_order_counterexample:
  "set [(''A'', [2 :: int]), (''B'', [1])] = set [(''B'', [1]), (''A'', [2])] \<and>
   find_alternative_solutions [(''A'', [2]), (''B'', [1])] None 5 10 None None = Inr [([2, 1], 2)] \<and>
   find_alternative_solutions [(''B'', [1]), (''A'', [2])] None 5 10 None None = Inr [([1, 2], 2)]"
proof -
  have "set [(''A'', [2 :: int]), (''B'', [1])] = set [(''B'', [1]), (''A'', [2])]" by auto
  moreover have "find_alternative_solutions [(''A'', [2]), (''B'', [1])] None 5 10 None None = Inr [([2, 1], 2)]"
    by code_simp
  moreover have "find_alternative_solutions [(''B'', [1]), (''A'', [2])] None 5 10 None None = Inr [([1, 2], 2)]"
    by code_simp
  ultimately show ?thesis by blast
qed

end
